theory Spec2Isabelle
  imports Main
begin

section \<open>The F* and Pulse highlighting lexers of book/fstar\_pygments.py\<close>

text \<open>
  The source file declares two keyword tuples and two \<^verbatim>\<open>RegexLexer\<close> subclasses whose
  only content is the rule table \<^verbatim>\<open>tokens['root']\<close>: an ordered list of pairs
  (regular expression, token kind). The tables are embedded below rule by rule. What runs
  the tables is the host library: Python's backtracking \<^verbatim>\<open>re\<close> engine (a pattern is
  compiled with the flag \<^verbatim>\<open>re.MULTILINE\<close> only, so \<^verbatim>\<open>.\<close> does not match a newline) and
  the scanning loop \<^verbatim>\<open>RegexLexer.get_tokens_unprocessed\<close>. Both are modelled here as far as
  the two tables use them. What the host does to a text before the loop sees it
  (\<^verbatim>\<open>get_tokens\<close> replaces carriage returns, strips newlines at both ends and appends one)
  is not part of the tables and is not modelled: the input of the model is the text the
  rules are applied to.

  A text is a \<^typ>\<open>string\<close>; each \<^typ>\<open>char\<close> stands for the code point of the same number
  (U+0000 to U+00FF).
\<close>

subsection \<open>Characters\<close>

definition codepoint :: "char \<Rightarrow> nat" where
  "codepoint c = of_char c"

definition newline :: char where
  "newline = CHR 0x0A"

definition carriage_return :: char where
  "carriage_return = CHR 0x0D"

text \<open>
  The class \<^verbatim>\<open>\w\<close> of a \<^verbatim>\<open>str\<close> pattern: the characters for which \<^verbatim>\<open>str.isalnum\<close>
  holds, and the underscore. Below U+0100 these are the ASCII digits and letters, the
  letters and numeric characters of Latin-1 (U+00AA, U+00B2, U+00B3, U+00B5, U+00B9, U+00BA,
  U+00BC to U+00BE, U+00C0 to U+00FF without the signs U+00D7 and U+00F7).
\<close>

definition unicode_isalnum :: "char \<Rightarrow> bool" where
  "unicode_isalnum c =
     (let n = codepoint c in
        (48 \<le> n \<and> n \<le> 57) \<or> (65 \<le> n \<and> n \<le> 90) \<or> (97 \<le> n \<and> n \<le> 122) \<or>
        n = 170 \<or> n = 178 \<or> n = 179 \<or> n = 181 \<or> n = 185 \<or> n = 186 \<or>
        (188 \<le> n \<and> n \<le> 190) \<or> (192 \<le> n \<and> n \<le> 214) \<or>
        (216 \<le> n \<and> n \<le> 246) \<or> (248 \<le> n \<and> n \<le> 255))"

definition is_word_char :: "char \<Rightarrow> bool" where
  "is_word_char c = (unicode_isalnum c \<or> c = CHR ''_'')"

subsection \<open>Regular expressions and the backtracking matcher\<close>

text \<open>
  A character class is a list of single characters and ranges, as written between the
  brackets of the pattern.
\<close>

datatype cset_item = Chr char | Rng char char

fun in_item :: "char \<Rightarrow> cset_item \<Rightarrow> bool" where
  "in_item c (Chr d) = (c = d)"
| "in_item c (Rng lo hi) = (codepoint lo \<le> codepoint c \<and> codepoint c \<le> codepoint hi)"

definition in_cset :: "char \<Rightarrow> cset_item list \<Rightarrow> bool" where
  "in_cset c items = list_ex (in_item c) items"

text \<open>
  The pattern constructs the two tables use. \<open>Words ws\<close> is what the helper
  \<^verbatim>\<open>words(ws)\<close> of the host stands for: an alternation of the literal strings \<open>ws\<close>.
  \<open>WordB\<close> is \<^verbatim>\<open>\b\<close>.
\<close>

datatype rx =
    Lit char
  | Dot
  | Set "cset_item list"
  | NSet "cset_item list"
  | Seq rx rx
  | Alt rx rx
  | Star rx
  | Plus rx
  | Words "string list"
  | WordB

text \<open>
  A cursor is a scan position in the text: the character just before the position
  (\<open>None\<close> at offset 0) and the text from the position on. The character before is all
  that \<^verbatim>\<open>\b\<close> reads of the text already scanned.
\<close>

type_synonym cursor = "char option \<times> string"

fun word_before :: "cursor \<Rightarrow> bool" where
  "word_before (None, s) = False"
| "word_before (Some c, s) = is_word_char c"

fun word_after :: "cursor \<Rightarrow> bool" where
  "word_after (p, []) = False"
| "word_after (p, c # s) = is_word_char c"

definition at_boundary :: "cursor \<Rightarrow> bool" where
  "at_boundary cur = (word_before cur \<noteq> word_after cur)"

fun one_char :: "(char \<Rightarrow> bool) \<Rightarrow> cursor \<Rightarrow> cursor list" where
  "one_char ok (p, []) = []"
| "one_char ok (p, c # s) = (if ok c then [(Some c, s)] else [])"

fun lit_ends :: "string \<Rightarrow> cursor \<Rightarrow> cursor list" where
  "lit_ends [] cur = [cur]"
| "lit_ends (c # w) cur = concat (map (lit_ends w) (one_char (\<lambda>x. x = c) cur))"

text \<open>
  \<open>rx_ends r cur\<close> lists the positions at which a match of \<open>r\<close> that starts at \<open>cur\<close>
  can end, in the order in which the backtracking engine tries them: the left alternative
  before the right one, one more iteration of a greedy repetition before leaving it. An
  iteration that consumes nothing is not repeated.
\<close>

function (sequential) rx_ends :: "rx \<Rightarrow> cursor \<Rightarrow> cursor list" where
  "rx_ends (Lit c) cur = one_char (\<lambda>x. x = c) cur"
| "rx_ends Dot cur = one_char (\<lambda>x. x \<noteq> newline) cur"
| "rx_ends (Set items) cur = one_char (\<lambda>x. in_cset x items) cur"
| "rx_ends (NSet items) cur = one_char (\<lambda>x. \<not> in_cset x items) cur"
| "rx_ends (Seq a b) cur = concat (map (rx_ends b) (rx_ends a cur))"
| "rx_ends (Alt a b) cur = rx_ends a cur @ rx_ends b cur"
| "rx_ends (Star a) cur =
     concat (map (rx_ends (Star a))
                 (filter (\<lambda>c'. length (snd c') < length (snd cur)) (rx_ends a cur))) @ [cur]"
| "rx_ends (Plus a) cur = concat (map (rx_ends (Star a)) (rx_ends a cur))"
| "rx_ends (Words ws) cur = concat (map (\<lambda>w. lit_ends w cur) ws)"
| "rx_ends WordB cur = (if at_boundary cur then [cur] else [])"
  by pat_completeness auto
termination
  by (relation "inv_image (less_than <*lex*> less_than)
        (\<lambda>(r, cur). (2 * size r + (case r of Plus _ \<Rightarrow> 1 | _ \<Rightarrow> 0), length (snd cur)))")
     (auto split: rx.splits)

text \<open>
  The equation of the repetition calls itself: it is unfolded by hand, not by the
  simplifier.
\<close>

declare rx_ends.simps(7) [simp del]

text \<open>\<^verbatim>\<open>pattern.match(text, pos)\<close>: the first end in that order, if there is one.\<close>

definition rx_match :: "rx \<Rightarrow> cursor \<Rightarrow> cursor option" where
  "rx_match r cur = (case rx_ends r cur of [] \<Rightarrow> None | e # es \<Rightarrow> Some e)"

subsection \<open>Token kinds and the scanning loop\<close>

text \<open>
  The kinds the tables name are \<open>Text\<close>, \<open>Comment\<close> and \<open>Keyword\<close>; the loop of the host
  itself emits \<open>Whitespace\<close> and \<open>Error\<close> where no rule matches.
\<close>

datatype token_kind = Text | Comment | Keyword | Whitespace | Error

type_synonym rule = "rx \<times> token_kind"

type_synonym token = "token_kind \<times> string"

text \<open>The \<^verbatim>\<open>for\<close> loop over the rules of the state: the first rule that matches is taken.\<close>

fun first_match :: "rule list \<Rightarrow> cursor \<Rightarrow> (token_kind \<times> cursor) option" where
  "first_match [] cur = None"
| "first_match ((r, k) # rules) cur =
     (case rx_match r cur of
        Some e \<Rightarrow> Some (k, e)
      | None \<Rightarrow> first_match rules cur)"

text \<open>
  \<^verbatim>\<open>m.group()\<close>: the text between the start of the match and its end.
\<close>

definition matched_text :: "cursor \<Rightarrow> cursor \<Rightarrow> string" where
  "matched_text cur e = take (length (snd cur) - length (snd e)) (snd cur)"

text \<open>
  The \<^verbatim>\<open>while 1\<close> loop. A matching rule yields its token and moves the position to the end
  of the match. When no rule matches, a newline is yielded as \<open>Whitespace\<close>, any other
  character as \<open>Error\<close>, and the end of the text (the \<^verbatim>\<open>IndexError\<close>) leaves the loop. The
  loop of the host has no bound of its own (a rule that matches the empty string is applied
  forever), so the model counts iterations: \<open>None\<close> is "no result within \<open>fuel\<close>
  iterations".
\<close>

fun lex_loop :: "nat \<Rightarrow> rule list \<Rightarrow> cursor \<Rightarrow> token list option" where
  "lex_loop 0 rules cur = None"
| "lex_loop (Suc fuel) rules cur =
     (case first_match rules cur of
        Some (k, e) \<Rightarrow>
          map_option (\<lambda>ts. (k, matched_text cur e) # ts) (lex_loop fuel rules e)
      | None \<Rightarrow>
          (case snd cur of
             [] \<Rightarrow> Some []
           | c # s \<Rightarrow>
               map_option (\<lambda>ts. ((if c = newline then Whitespace else Error), [c]) # ts)
                 (lex_loop fuel rules (Some c, s))))"

subsection \<open>The keyword tables and the two lexers\<close>

definition fstar_keywords :: "string list" where
  "fstar_keywords =
     [''attributes'', ''noeq'', ''unopteq'', ''and'', ''assert'', ''assert_norm'',
      ''assume'', ''begin'', ''by'', ''calc'', ''class'', ''decreases'', ''Dv'',
      ''effect'', ''eliminate'', ''else'', ''end'', ''ensures'', ''exception'',
      ''exists'', ''false'', ''friend'', ''forall'', ''fun'', ''function'', ''GTot'',
      ''if'', ''in'', ''include'', ''inline'', ''inline_for_extraction'', ''instance'',
      ''introduce'', ''irreducible'', ''let'', ''logic'', ''match'', ''module'', ''new'',
      ''new_effect'', ''layered_effect'', ''polymonadic_bind'', ''polymonadic_subcomp'',
      ''SMTPat'', ''noextract'', ''of'', ''open'', ''opaque'', ''private'', ''range_of'',
      ''rec'', ''reifiable'', ''reify'', ''reflectable'', ''requires'', ''returns'',
      ''set_range_of'', ''sub_effect'', ''synth'', ''then'', ''total'', ''Tot'', ''true'',
      ''try'', ''type'', ''unfold'', ''unfoldable'', ''val'', ''when'', ''with'', ''_'',
      ''Lemma'']"

definition pulse_keywords :: "string list" where
  "pulse_keywords =
     [''fn'', ''fold'', ''rewrite'', ''each'', ''mut'', ''ghost'', ''atomic'',
      ''show_proof_state'', ''while'', ''invariant'', ''with_invariants'', ''opens'',
      ''parallel'']"

text \<open>The patterns of the tables, named by what they match.\<close>

definition rx_line_comment :: rx where
  \<comment> \<open>\<^verbatim>\<open>//.*\n\<close>\<close>
  "rx_line_comment = Seq (Lit CHR ''/'') (Seq (Lit CHR ''/'') (Seq (Star Dot) (Lit newline)))"

definition rx_block_comment :: rx where
  \<comment> \<open>\<^verbatim>\<open>\([*]([^*]|[*]+[^)])*[*]+\)\<close>\<close>
  "rx_block_comment =
     Seq (Lit CHR ''('')
       (Seq (Set [Chr CHR ''*''])
         (Seq (Star (Alt (NSet [Chr CHR ''*''])
                         (Seq (Plus (Set [Chr CHR ''*''])) (NSet [Chr CHR '')'']))))
           (Seq (Plus (Set [Chr CHR ''*''])) (Lit CHR '')''))))"

definition rx_words :: "string list \<Rightarrow> rx" where
  \<comment> \<open>\<^verbatim>\<open>words(ws, suffix=r'\b')\<close>\<close>
  "rx_words ws = Seq (Words ws) WordB"

record lexer =
  name :: string
  aliases :: "string list"
  filenames :: "string list"
  tokens :: "(string \<times> rule list) list"

text \<open>The list under the key \<^verbatim>\<open>'root'\<close> of \<^verbatim>\<open>CustomLexer.tokens\<close>.\<close>

definition CustomLexer_root :: "rule list" where
  "CustomLexer_root =
     [(Lit CHR '' '', Text),
      (Lit newline, Text),
      (Lit carriage_return, Text),
      (rx_line_comment, Comment),
      (rx_block_comment, Comment),
      (rx_words fstar_keywords, Keyword),
      (Plus (Set [Rng CHR ''a'' CHR ''z'', Rng CHR ''A'' CHR ''Z'', Chr CHR ''_'',
                  Rng CHR ''0'' CHR ''9'']), Text),
      (Dot, Text)]"

definition CustomLexer :: lexer where
  "CustomLexer =
     \<lparr> name = ''FStar'',
       aliases = [''fstar''],
       filenames = [''*.fst'', ''*.fsti''],
       tokens = [(''root'', CustomLexer_root)] \<rparr>"

text \<open>The list under the key \<^verbatim>\<open>'root'\<close> of \<^verbatim>\<open>PulseLexer.tokens\<close>.\<close>

definition PulseLexer_root :: "rule list" where
  "PulseLexer_root =
     [(Lit CHR '' '', Text),
      (Lit newline, Text),
      (Lit carriage_return, Text),
      (rx_line_comment, Comment),
      (rx_block_comment, Comment),
      (rx_words fstar_keywords, Keyword),
      (rx_words pulse_keywords, Keyword),
      (Plus (Set [Rng CHR ''a'' CHR ''z'', Rng CHR ''A'' CHR ''Z'', Chr CHR ''_'']), Text),
      (Dot, Text)]"

definition PulseLexer :: lexer where
  "PulseLexer =
     \<lparr> name = ''Pulse'',
       aliases = [''pulse''],
       filenames = [''*.fst'', ''*.fsti''],
       tokens = [(''root'', PulseLexer_root)] \<rparr>"

text \<open>
  \<^verbatim>\<open>get_tokens_unprocessed(text)\<close> starts the loop in the state \<^verbatim>\<open>'root'\<close> at offset 0.
  Every iteration but the last moves the position forward or repeats for ever, so
  \<open>length text + 1\<close> iterations are enough whenever the loop ends at all
  (\<open>lex_loop_enough_fuel\<close> below). A table without the state \<^verbatim>\<open>'root'\<close> gives no result.
\<close>

definition root_rules :: "lexer \<Rightarrow> rule list option" where
  "root_rules lx = map_of (tokens lx) ''root''"

definition get_tokens_unprocessed :: "lexer \<Rightarrow> string \<Rightarrow> token list option" where
  "get_tokens_unprocessed lx text =
     (case root_rules lx of
        None \<Rightarrow> None
      | Some rules \<Rightarrow> lex_loop (Suc (length text)) rules (None, text))"

subsection \<open>Auxiliary notions for the proofs\<close>

text \<open>
  A syntactic check that a pattern cannot match the empty string: it holds of every
  pattern of the two tables.
\<close>

fun never_empty :: "rx \<Rightarrow> bool" where
  "never_empty (Lit c) = True"
| "never_empty Dot = True"
| "never_empty (Set items) = True"
| "never_empty (NSet items) = True"
| "never_empty (Seq a b) = (never_empty a \<or> never_empty b)"
| "never_empty (Alt a b) = (never_empty a \<and> never_empty b)"
| "never_empty (Star a) = False"
| "never_empty (Plus a) = never_empty a"
| "never_empty (Words ws) = list_all (\<lambda>w. w \<noteq> []) ws"
| "never_empty WordB = False"

text \<open>
  \<open>reach cur e\<close>: the position \<open>e\<close> lies at or after \<open>cur\<close> in the same text, some
  \<open>u\<close> being the text between them.
\<close>

definition reach :: "cursor \<Rightarrow> cursor \<Rightarrow> bool" where
  "reach cur e =
     (\<exists>u. snd cur = u @ snd e \<and> fst e = (if u = [] then fst cur else Some (last u)))"

text \<open>
  The loop started at any position \<open>cur\<close> of a text, with the iterations that the rest of
  the text can need; \<open>get_tokens_unprocessed\<close> is \<open>scan_from\<close> at offset 0.
\<close>

definition scan_from :: "rule list \<Rightarrow> cursor \<Rightarrow> token list option" where
  "scan_from rules cur = lex_loop (Suc (length (snd cur))) rules cur"

text \<open>The strings made of characters of the class \<^verbatim>\<open>\w\<close> only, and not empty.\<close>

definition is_word :: "string \<Rightarrow> bool" where
  "is_word w = (w \<noteq> [] \<and> list_all is_word_char w)"

text \<open>Whether a text contains the close delimiter \<^verbatim>\<open>*)\<close> of a block comment.\<close>

fun contains_close :: "string \<Rightarrow> bool" where
  "contains_close (a # b # s) = ((a = CHR ''*'' \<and> b = CHR '')'') \<or> contains_close (b # s))"
| "contains_close s = False"

section \<open>Facts about the matcher\<close>

subsection \<open>Ends of a match lie downstream, in the same text\<close>

lemma reach_refl: "reach cur cur"
  by (simp add: reach_def)

lemma reach_trans: "reach a b \<Longrightarrow> reach b c \<Longrightarrow> reach a c"
proof -
  assume "reach a b" and "reach b c"
  then obtain u v where u: "snd a = u @ snd b" "fst b = (if u = [] then fst a else Some (last u))"
    and v: "snd b = v @ snd c" "fst c = (if v = [] then fst b else Some (last v))"
    unfolding reach_def by blast
  have "snd a = (u @ v) @ snd c" using u v by simp
  moreover have "fst c = (if u @ v = [] then fst a else Some (last (u @ v)))"
    using u v by simp
  ultimately show ?thesis unfolding reach_def by blast
qed

lemma reach_length: "reach cur e \<Longrightarrow> length (snd e) \<le> length (snd cur)"
  by (auto simp: reach_def)

lemma reach_same_length: "reach cur e \<Longrightarrow> length (snd e) = length (snd cur) \<Longrightarrow> e = cur"
  by (cases cur; cases e) (auto simp: reach_def)

lemma reach_matched_text: "reach cur e \<Longrightarrow> matched_text cur e @ snd e = snd cur"
  by (auto simp: reach_def matched_text_def)

lemma one_char_reach:
  "e \<in> set (one_char ok cur) \<Longrightarrow> reach cur e \<and> length (snd e) < length (snd cur)"
proof (cases "(ok, cur)" rule: one_char.cases)
  case (1 ok' p)
  assume "e \<in> set (one_char ok cur)"
  with 1 show ?thesis by simp
next
  case (2 ok' p c s)
  assume "e \<in> set (one_char ok cur)"
  with 2 have e: "e = (Some c, s)" by (simp split: if_splits)
  have "snd cur = [c] @ snd e" using 2 e by simp
  then show ?thesis using 2 e unfolding reach_def by force
qed

lemma lit_ends_reach:
  "e \<in> set (lit_ends w cur) \<Longrightarrow> reach cur e \<and> length (snd e) + length w = length (snd cur)"
proof (induction w arbitrary: cur)
  case Nil
  then show ?case by (simp add: reach_refl)
next
  case (Cons c w)
  then obtain m where m: "m \<in> set (one_char (\<lambda>x. x = c) cur)" and e: "e \<in> set (lit_ends w m)"
    by auto
  have 1: "reach cur m" and 2: "length (snd m) < length (snd cur)"
    using one_char_reach[OF m] by simp_all
  have 3: "length (snd cur) = Suc (length (snd m))"
    using m by (cases "(\<lambda>x. x = c, cur)" rule: one_char.cases) (auto split: if_splits)
  have 4: "reach m e" and 5: "length (snd e) + length w = length (snd m)"
    using Cons.IH[OF e] by simp_all
  show ?case using reach_trans[OF 1 4] 3 5 by simp
qed

lemma rx_ends_reach: "e \<in> set (rx_ends r cur) \<Longrightarrow> reach cur e"
proof (induction r cur arbitrary: e rule: rx_ends.induct)
  case (1 c cur)
  then show ?case using one_char_reach[of e "\<lambda>x. x = c" cur] by simp
next
  case (2 cur)
  then show ?case using one_char_reach[of e "\<lambda>x. x \<noteq> newline" cur] by simp
next
  case (3 items cur)
  then show ?case using one_char_reach[of e "\<lambda>x. in_cset x items" cur] by simp
next
  case (4 items cur)
  then show ?case using one_char_reach[of e "\<lambda>x. \<not> in_cset x items" cur] by simp
next
  case (5 a b cur)
  from "5.prems" obtain m where m: "m \<in> set (rx_ends a cur)" and e: "e \<in> set (rx_ends b m)"
    by auto
  show ?case using reach_trans[OF "5.IH"(1)[OF m] "5.IH"(2)[OF m e]] .
next
  case (6 a b cur)
  from "6.prems" have "e \<in> set (rx_ends a cur) \<or> e \<in> set (rx_ends b cur)" by simp
  then show ?case using "6.IH" by blast
next
  case (7 a cur)
  show ?case
  proof (cases "e = cur")
    case True
    then show ?thesis by (simp add: reach_refl)
  next
    case False
    with "7.prems" obtain m where m: "m \<in> set (rx_ends a cur)"
      and lt: "length (snd m) < length (snd cur)" and e: "e \<in> set (rx_ends (Star a) m)"
      by (auto simp: rx_ends.simps(7)[of a cur])
    have m': "m \<in> set (filter (\<lambda>c'. length (snd c') < length (snd cur)) (rx_ends a cur))"
      using m lt by simp
    show ?thesis using reach_trans[OF "7.IH"(1)[OF m] "7.IH"(2)[OF m' e]] .
  qed
next
  case (8 a cur)
  from "8.prems" obtain m where m: "m \<in> set (rx_ends a cur)"
    and e: "e \<in> set (rx_ends (Star a) m)"
    by auto
  show ?case using reach_trans[OF "8.IH"(1)[OF m] "8.IH"(2)[OF m e]] .
next
  case (9 ws cur)
  from "9.prems" obtain w where "e \<in> set (lit_ends w cur)" by auto
  then show ?case using lit_ends_reach by blast
next
  case (10 cur)
  then have "e = cur" by (simp split: if_splits)
  then show ?case by (simp add: reach_refl)
qed

lemma never_empty_progress:
  "never_empty r \<Longrightarrow> e \<in> set (rx_ends r cur) \<Longrightarrow> length (snd e) < length (snd cur)"
proof (induction r arbitrary: cur e)
  case (Lit c)
  then show ?case using one_char_reach[of e "\<lambda>x. x = c" cur] by simp
next
  case Dot
  then show ?case using one_char_reach[of e "\<lambda>x. x \<noteq> newline" cur] by simp
next
  case (Set items)
  then show ?case using one_char_reach[of e "\<lambda>x. in_cset x items" cur] by simp
next
  case (NSet items)
  then show ?case using one_char_reach[of e "\<lambda>x. \<not> in_cset x items" cur] by simp
next
  case (Seq a b)
  from Seq.prems(2) obtain m where m: "m \<in> set (rx_ends a cur)" and e: "e \<in> set (rx_ends b m)"
    by auto
  have le1: "length (snd m) \<le> length (snd cur)" and le2: "length (snd e) \<le> length (snd m)"
    using rx_ends_reach[OF m] rx_ends_reach[OF e] by (simp_all add: reach_length)
  from Seq.prems(1) consider "never_empty a" | "never_empty b" by auto
  then show ?case
  proof cases
    case 1
    from Seq.IH(1)[OF 1 m] le2 show ?thesis by simp
  next
    case 2
    from Seq.IH(2)[OF 2 e] le1 show ?thesis by simp
  qed
next
  case (Alt a b)
  from Alt.prems(2) have "e \<in> set (rx_ends a cur) \<or> e \<in> set (rx_ends b cur)" by simp
  moreover have "never_empty a" "never_empty b" using Alt.prems(1) by simp_all
  ultimately show ?case using Alt.IH by blast
next
  case (Star a)
  then show ?case by simp
next
  case (Plus a)
  from Plus.prems(2) obtain m where m: "m \<in> set (rx_ends a cur)"
    and e: "e \<in> set (rx_ends (Star a) m)"
    by auto
  have "length (snd e) \<le> length (snd m)"
    using rx_ends_reach[OF e] by (simp add: reach_length)
  moreover have "length (snd m) < length (snd cur)"
    using Plus.IH[OF _ m] Plus.prems(1) by simp
  ultimately show ?case by simp
next
  case (Words ws)
  from Words.prems(2) obtain w where w: "w \<in> set ws" and e: "e \<in> set (lit_ends w cur)"
    by auto
  from Words.prems(1) w have "w \<noteq> []" by (auto simp: list_all_iff)
  then have "0 < length w" by simp
  moreover have "length (snd e) + length w = length (snd cur)"
    using lit_ends_reach[OF e] by simp
  ultimately show ?case by linarith
next
  case WordB
  then show ?case by simp
qed

subsection \<open>The first matching rule\<close>

lemma rx_match_Some_mem: "rx_match r cur = Some e \<Longrightarrow> e \<in> set (rx_ends r cur)"
  by (auto simp: rx_match_def split: list.splits)

lemma rx_match_None_iff: "rx_match r cur = None \<longleftrightarrow> rx_ends r cur = []"
  by (auto simp: rx_match_def split: list.splits)

lemma first_match_Some:
  "first_match rules cur = Some (k, e) \<Longrightarrow> \<exists>r. (r, k) \<in> set rules \<and> rx_match r cur = Some e"
  by (induction rules) (auto split: option.splits)

lemma first_match_None_iff:
  "first_match rules cur = None \<longleftrightarrow> (\<forall>rk\<in>set rules. rx_ends (fst rk) cur = [])"
  by (induction rules) (auto simp: rx_match_def split: option.splits list.splits)

lemma first_match_progress:
  assumes "list_all (\<lambda>rk. never_empty (fst rk)) rules"
    and "first_match rules cur = Some (k, e)"
  shows "reach cur e" and "length (snd e) < length (snd cur)" and "k \<in> snd ` set rules"
proof -
  from first_match_Some[OF assms(2)] obtain r where r: "(r, k) \<in> set rules"
    and m: "rx_match r cur = Some e" by blast
  have mem: "e \<in> set (rx_ends r cur)" using m by (rule rx_match_Some_mem)
  show "reach cur e" using mem by (rule rx_ends_reach)
  have "never_empty r" using assms(1) r by (auto simp: list_all_iff)
  then show "length (snd e) < length (snd cur)" using mem by (rule never_empty_progress)
  show "k \<in> snd ` set rules" using r by force
qed

lemma matched_text_nonempty:
  "reach cur e \<Longrightarrow> length (snd e) < length (snd cur) \<Longrightarrow> matched_text cur e \<noteq> []"
  using reach_matched_text[of cur e] by auto

subsection \<open>The scanning loop\<close>

lemma lex_loop_total:
  assumes ne: "list_all (\<lambda>rk. never_empty (fst rk)) rules"
    and tot: "\<And>p c s. first_match rules (p, c # s) \<noteq> None"
  shows "length s < fuel \<Longrightarrow>
         \<exists>ts. lex_loop fuel rules (p, s) = Some ts \<and> concat (map snd ts) = s \<and>
              length ts \<le> length s \<and>
              (\<forall>t\<in>set ts. fst t \<in> snd ` set rules \<and> snd t \<noteq> [])"
proof (induction fuel arbitrary: p s)
  case 0
  then show ?case by simp
next
  case (Suc fuel)
  show ?case
  proof (cases "first_match rules (p, s)")
    case None
    then have "s = []" using tot[of p] by (cases s) auto
    then show ?thesis using None by simp
  next
    case (Some ke)
    obtain k p' s' where ke: "ke = (k, (p', s'))" by (cases ke) auto
    have fm: "first_match rules (p, s) = Some (k, (p', s'))" using Some ke by simp
    have r: "reach (p, s) (p', s')" and lt: "length s' < length s"
      and kin: "k \<in> snd ` set rules"
      using first_match_progress[OF ne fm] by simp_all
    have "length s' < fuel" using lt Suc.prems by simp
    from Suc.IH[OF this, of p'] obtain ts where
      ts: "lex_loop fuel rules (p', s') = Some ts" and cat: "concat (map snd ts) = s'"
      and len: "length ts \<le> length s'"
      and all: "\<forall>t\<in>set ts. fst t \<in> snd ` set rules \<and> snd t \<noteq> []"
      by blast
    have mt: "matched_text (p, s) (p', s') @ s' = s" using reach_matched_text[OF r] by simp
    have mne: "matched_text (p, s) (p', s') \<noteq> []" using matched_text_nonempty[OF r] lt by simp
    have "lex_loop (Suc fuel) rules (p, s) = Some ((k, matched_text (p, s) (p', s')) # ts)"
      using fm ts by simp
    moreover have "concat (map snd ((k, matched_text (p, s) (p', s')) # ts)) = s"
      using cat mt by simp
    moreover have "length ((k, matched_text (p, s) (p', s')) # ts) \<le> length s"
      using len lt by simp
    moreover have "\<forall>t\<in>set ((k, matched_text (p, s) (p', s')) # ts).
                     fst t \<in> snd ` set rules \<and> snd t \<noteq> []"
      using all kin mne by simp
    ultimately show ?thesis by blast
  qed
qed

lemma lex_loop_stuck:
  "first_match rules cur = Some (k, cur) \<Longrightarrow> lex_loop n rules cur = None"
  by (induction n) simp_all

lemma lex_loop_mono:
  "lex_loop n rules cur = Some ts \<Longrightarrow> n \<le> m \<Longrightarrow> lex_loop m rules cur = Some ts"
proof (induction n arbitrary: m cur ts)
  case 0
  then show ?case by simp
next
  case (Suc n)
  then obtain m' where m: "m = Suc m'" and le: "n \<le> m'" by (cases m) auto
  show ?case
  proof (cases "first_match rules cur")
    case None
    show ?thesis
    proof (cases "snd cur")
      case Nil
      then show ?thesis using None Suc.prems(1) m by simp
    next
      case (Cons c s)
      with None Suc.prems(1) obtain ts' where
        ts': "lex_loop n rules (Some c, s) = Some ts'"
        and eq: "ts = ((if c = newline then Whitespace else Error), [c]) # ts'"
        by auto
      from Suc.IH[OF ts' le] show ?thesis using None Cons eq m by simp
    qed
  next
    case (Some ke)
    obtain k e where ke: "ke = (k, e)" by (cases ke) auto
    with Some Suc.prems(1) obtain ts' where ts': "lex_loop n rules e = Some ts'"
      and eq: "ts = (k, matched_text cur e) # ts'"
      by auto
    from Suc.IH[OF ts' le] show ?thesis using Some ke eq m by simp
  qed
qed

lemma lex_loop_enough_fuel:
  "lex_loop n rules cur = Some ts \<Longrightarrow> lex_loop (Suc (length (snd cur))) rules cur = Some ts"
proof (induction "length (snd cur)" arbitrary: n cur ts rule: less_induct)
  case less
  from less.prems obtain n' where n: "n = Suc n'" by (cases n) auto
  show ?case
  proof (cases "first_match rules cur")
    case None
    show ?thesis
    proof (cases "snd cur")
      case Nil
      then show ?thesis using None less.prems n by simp
    next
      case (Cons c s)
      with None less.prems n obtain ts' where
        ts': "lex_loop n' rules (Some c, s) = Some ts'"
        and eq: "ts = ((if c = newline then Whitespace else Error), [c]) # ts'"
        by auto
      have "length (snd (Some c, s)) < length (snd cur)" using Cons by simp
      from less.hyps[OF this ts'] have "lex_loop (Suc (length s)) rules (Some c, s) = Some ts'"
        by simp
      then show ?thesis using None Cons eq by simp
    qed
  next
    case (Some ke)
    obtain k e where ke: "ke = (k, e)" by (cases ke) auto
    with Some less.prems n obtain ts' where ts': "lex_loop n' rules e = Some ts'"
      and eq: "ts = (k, matched_text cur e) # ts'"
      by auto
    from first_match_Some Some ke obtain r where "rx_match r cur = Some e" by blast
    then have r: "reach cur e" using rx_match_Some_mem rx_ends_reach by blast
    have "e \<noteq> cur" using lex_loop_stuck[of rules cur k n'] Some ke ts' by auto
    then have lt: "length (snd e) < length (snd cur)"
      using reach_same_length[OF r] reach_length[OF r] by fastforce
    from less.hyps[OF lt ts'] have "lex_loop (Suc (length (snd e))) rules e = Some ts'" .
    then have "lex_loop (length (snd cur)) rules e = Some ts'"
      using lt lex_loop_mono by (metis Suc_leI)
    then show ?thesis using Some ke eq by simp
  qed
qed

lemma scan_from_step:
  assumes "first_match rules cur = Some (k, e)"
  shows "scan_from rules cur = map_option ((#) (k, matched_text cur e)) (scan_from rules e)"
proof -
  from first_match_Some[OF assms] obtain r where "rx_match r cur = Some e" by blast
  then have r: "reach cur e" using rx_match_Some_mem rx_ends_reach by blast
  have eq: "lex_loop (length (snd cur)) rules e = lex_loop (Suc (length (snd e))) rules e"
  proof (cases "e = cur")
    case True
    then show ?thesis using lex_loop_stuck[of rules cur k] assms by simp
  next
    case False
    then have lt: "Suc (length (snd e)) \<le> length (snd cur)"
      using reach_same_length[OF r] reach_length[OF r] by fastforce
    show ?thesis
    proof (cases "lex_loop (Suc (length (snd e))) rules e")
      case None
      then show ?thesis using lex_loop_enough_fuel[of "length (snd cur)" rules e]
        by (cases "lex_loop (length (snd cur)) rules e") auto
    next
      case (Some ts)
      then show ?thesis using lex_loop_mono[OF Some lt] by simp
    qed
  qed
  show ?thesis unfolding scan_from_def using assms eq by simp
qed

lemma scan_from_end:
  assumes "list_all (\<lambda>rk. never_empty (fst rk)) rules"
  shows "scan_from rules (p, []) = Some []"
proof -
  have "first_match rules (p, []) = None"
  proof (cases "first_match rules (p, [])")
    case (Some ke)
    then show ?thesis using first_match_progress(2)[OF assms, of "(p, [])" "fst ke" "snd ke"]
      by simp
  qed simp
  then show ?thesis by (simp add: scan_from_def)
qed

subsection \<open>Literal words and the word boundary\<close>

lemma lit_ends_mem:
  "e \<in> set (lit_ends w (p, s)) \<Longrightarrow>
     s = w @ snd e \<and> fst e = (if w = [] then p else Some (last w))"
proof (induction w arbitrary: p s)
  case Nil
  then show ?case by simp
next
  case (Cons c w)
  show ?case
  proof (cases s)
    case Nil
    then show ?thesis using Cons.prems by simp
  next
    case (Cons x xs)
    with Cons.prems have x: "x = c" and e: "e \<in> set (lit_ends w (Some c, xs))"
      by (auto split: if_splits)
    from Cons.IH[OF e] show ?thesis using x Cons by auto
  qed
qed

lemma lit_ends_prefix: "w \<noteq> [] \<Longrightarrow> lit_ends w (p, w @ t) = [(Some (last w), t)]"
proof (induction w arbitrary: p)
  case Nil
  then show ?case by simp
next
  case (Cons c w)
  show ?case
  proof (cases "w = []")
    case True
    then show ?thesis by simp
  next
    case False
    from Cons.IH[OF False, of "Some c"] show ?thesis using False by simp
  qed
qed

lemma word_split_unique:
  assumes eq: "K @ t = w @ s'"
    and K: "list_all is_word_char K" and w: "list_all is_word_char w"
    and t: "\<not> word_after (q, t)" and s': "\<not> word_after (q', s')"
  shows "w = K \<and> s' = t"
proof -
  from eq obtain us where "(K = w @ us \<and> us @ t = s') \<or> (K @ us = w \<and> t = us @ s')"
    by (auto simp: append_eq_append_conv2)
  then show ?thesis
  proof
    assume a: "K = w @ us \<and> us @ t = s'"
    have "us = []"
    proof (cases us)
      case (Cons u us')
      then have "is_word_char u" using a K by (auto simp: list_all_iff)
      then show ?thesis using a s' Cons by auto
    qed simp
    then show ?thesis using a by simp
  next
    assume a: "K @ us = w \<and> t = us @ s'"
    have "us = []"
    proof (cases us)
      case (Cons u us')
      then have "is_word_char u" using a w by (auto simp: list_all_iff)
      then show ?thesis using a t Cons by auto
    qed simp
    then show ?thesis using a by simp
  qed
qed

lemma rx_words_ends:
  assumes ws: "list_all is_word ws" and K: "is_word K" and t: "\<not> word_after (q, t)"
    and e: "e \<in> set (rx_ends (rx_words ws) (p, K @ t))"
  shows "K \<in> set ws \<and> e = (Some (last K), t)"
proof -
  from e obtain w where w: "w \<in> set ws" and m: "e \<in> set (lit_ends w (p, K @ t))"
    and b: "at_boundary e"
    by (auto simp: rx_words_def split: if_splits)
  have ww: "w \<noteq> []" "list_all is_word_char w"
    using ws w by (auto simp: list_all_iff is_word_def)
  from lit_ends_mem[OF m] have eq: "K @ t = w @ snd e" and f: "fst e = Some (last w)"
    using ww by simp_all
  have "is_word_char (last w)" using ww by (auto simp: list_all_iff)
  then have "word_before e" using f by (cases e) simp
  then have "\<not> word_after (fst e, snd e)" using b by (simp add: at_boundary_def)
  from word_split_unique[OF eq _ ww(2) t this] K have "w = K" "snd e = t"
    by (simp_all add: is_word_def)
  then show ?thesis using w f by (cases e) simp
qed

lemma rx_words_match:
  assumes ws: "list_all is_word ws" and K: "K \<in> set ws" and t: "\<not> word_after (q, t)"
  shows "rx_match (rx_words ws) (p, K @ t) = Some (Some (last K), t)"
proof -
  have Kw: "is_word K" using ws K by (auto simp: list_all_iff)
  then have "is_word_char (last K)" by (auto simp: is_word_def list_all_iff)
  then have "at_boundary (Some (last K), t)"
    using t by (cases t) (simp_all add: at_boundary_def)
  moreover have "(Some (last K), t) \<in> set (lit_ends K (p, K @ t))"
    using lit_ends_prefix[of K p t] Kw by (simp add: is_word_def)
  ultimately have "(Some (last K), t) \<in> set (rx_ends (rx_words ws) (p, K @ t))"
    using K by (auto simp: rx_words_def)
  then obtain e es where es: "rx_ends (rx_words ws) (p, K @ t) = e # es"
    by (cases "rx_ends (rx_words ws) (p, K @ t)") auto
  then have "e \<in> set (rx_ends (rx_words ws) (p, K @ t))" by simp
  from rx_words_ends[OF ws Kw t this] have "e = (Some (last K), t)" by simp
  then show ?thesis using es by (simp add: rx_match_def)
qed

lemma rx_words_no_match:
  assumes ws: "list_all is_word ws" and K: "is_word K" and t: "\<not> word_after (q, t)"
    and "K \<notin> set ws"
  shows "rx_match (rx_words ws) (p, K @ t) = None"
proof (cases "rx_ends (rx_words ws) (p, K @ t)")
  case Nil
  then show ?thesis by (simp add: rx_match_def)
next
  case (Cons e es)
  then have "e \<in> set (rx_ends (rx_words ws) (p, K @ t))" by simp
  from rx_words_ends[OF ws K t this] assms(4) show ?thesis by simp
qed

text \<open>
  The host's \<^verbatim>\<open>words\<close> builds one optimised pattern from the list, which tries the words in
  an order of its own. The order does not matter: under \<^verbatim>\<open>\b\<close>, a list of words made of
  \<^verbatim>\<open>\w\<close> characters has at most one end at any position.
\<close>

lemma rx_words_unique:
  assumes ws: "list_all is_word ws"
    and e: "e \<in> set (rx_ends (rx_words ws) (p, s))"
    and e': "e' \<in> set (rx_ends (rx_words ws) (p, s))"
  shows "e' = e"
proof -
  have end_of: "\<exists>w\<in>set ws. s = w @ snd x \<and> fst x = Some (last w) \<and> \<not> word_after (fst x, snd x)"
    if x: "x \<in> set (rx_ends (rx_words ws) (p, s))" for x
  proof -
    from x obtain w where w: "w \<in> set ws" and m: "x \<in> set (lit_ends w (p, s))"
      and b: "at_boundary x"
      by (auto simp: rx_words_def split: if_splits)
    have ww: "w \<noteq> []" "list_all is_word_char w"
      using ws w by (auto simp: list_all_iff is_word_def)
    from lit_ends_mem[OF m] ww have eq: "s = w @ snd x" and f: "fst x = Some (last w)"
      by simp_all
    have "is_word_char (last w)" using ww by (auto simp: list_all_iff)
    then have "word_before x" using f by (cases x) simp
    then have "\<not> word_after (fst x, snd x)" using b by (simp add: at_boundary_def)
    with w eq f show ?thesis by blast
  qed
  from end_of[OF e] obtain w where w: "w \<in> set ws" "s = w @ snd e" "fst e = Some (last w)"
    "\<not> word_after (fst e, snd e)" by blast
  from end_of[OF e'] obtain w' where w': "w' \<in> set ws" "s = w' @ snd e'" "fst e' = Some (last w')"
    "\<not> word_after (fst e', snd e')" by blast
  have "list_all is_word_char w" "list_all is_word_char w'"
    using ws w(1) w'(1) by (auto simp: list_all_iff is_word_def)
  from word_split_unique[OF _ this w(4) w'(4)] w(2) w'(2) have "w' = w" "snd e' = snd e"
    by simp_all
  then show ?thesis using w(3) w'(3) by (simp add: prod_eq_iff)
qed

lemma rx_words_boundary:
  assumes "rx_match (rx_words ws) cur = Some e"
  shows "at_boundary e \<and> (\<exists>w\<in>set ws. e \<in> set (lit_ends w cur))"
  using rx_match_Some_mem[OF assms] by (auto simp: rx_words_def split: if_splits)

subsection \<open>Character classes and identifiers\<close>

lemma word_char_not_special:
  "is_word_char x \<Longrightarrow>
     x \<noteq> CHR '' '' \<and> x \<noteq> newline \<and> x \<noteq> carriage_return \<and> x \<noteq> CHR ''/'' \<and>
     x \<noteq> CHR ''('' \<and> x \<noteq> CHR ''*'' \<and> x \<noteq> CHR '')''"
  by (auto simp: is_word_char_def unicode_isalnum_def codepoint_def newline_def
      carriage_return_def)

lemma base_class_word:
  "in_cset x [Rng CHR ''a'' CHR ''z'', Rng CHR ''A'' CHR ''Z'', Chr CHR ''_'',
              Rng CHR ''0'' CHR ''9''] \<Longrightarrow> is_word_char x"
  by (auto simp: in_cset_def is_word_char_def unicode_isalnum_def codepoint_def)

lemma pulse_class_word:
  "in_cset x [Rng CHR ''a'' CHR ''z'', Rng CHR ''A'' CHR ''Z'', Chr CHR ''_''] \<Longrightarrow>
     is_word_char x"
  by (auto simp: in_cset_def is_word_char_def unicode_isalnum_def codepoint_def)

lemma star_set_greedy:
  assumes "list_all (\<lambda>x. in_cset x cls) K" and "t = [] \<or> \<not> in_cset (hd t) cls"
  shows "\<exists>es. rx_ends (Star (Set cls)) (p, K @ t) =
               (if K = [] then p else Some (last K), t) # es"
  using assms
proof (induction K arbitrary: p)
  case Nil
  then have "one_char (\<lambda>x. in_cset x cls) (p, t) = []" by (cases t) auto
  then show ?case by (simp add: rx_ends.simps(7))
next
  case (Cons x K)
  from Cons.IH[of "Some x"] Cons.prems obtain es where
    es: "rx_ends (Star (Set cls)) (Some x, K @ t) = (if K = [] then Some x else Some (last K), t) # es"
    by auto
  have step: "rx_ends (Star (Set cls)) (p, x # K @ t) =
      rx_ends (Star (Set cls)) (Some x, K @ t) @ [(p, x # K @ t)]"
    using Cons.prems by (subst rx_ends.simps(7)) simp
  show ?case using step es by auto
qed

lemma identifier_match:
  assumes "K \<noteq> []" and "list_all (\<lambda>x. in_cset x cls) K" and "t = [] \<or> \<not> in_cset (hd t) cls"
  shows "rx_match (Plus (Set cls)) (p, K @ t) = Some (Some (last K), t)"
proof -
  from assms(1) obtain x K' where K: "K = x # K'" by (cases K) auto
  from star_set_greedy[of cls K' t "Some x"] assms K obtain es where
    "rx_ends (Star (Set cls)) (Some x, K' @ t) = (if K' = [] then Some x else Some (last K'), t) # es"
    by auto
  then show ?thesis using K assms(2) by (simp add: rx_match_def)
qed

lemma identifier_no_match:
  "\<not> in_cset c cls \<Longrightarrow> rx_match (Plus (Set cls)) (p, c # s) = None"
  by (simp add: rx_match_def)

lemma rx_words_nonword_start:
  assumes "list_all is_word ws" and "\<not> is_word_char c"
  shows "rx_match (rx_words ws) (p, c # s) = None"
proof (cases "rx_ends (rx_words ws) (p, c # s)")
  case Nil
  then show ?thesis by (simp add: rx_match_def)
next
  case (Cons e es)
  then have "rx_match (rx_words ws) (p, c # s) = Some e" by (simp add: rx_match_def)
  from rx_words_boundary[OF this] obtain w where w: "w \<in> set ws"
    and m: "e \<in> set (lit_ends w (p, c # s))" by blast
  from w assms(1) have "w \<noteq> []" "list_all is_word_char w"
    by (auto simp: list_all_iff is_word_def)
  moreover from lit_ends_mem[OF m] have "c # s = w @ snd e" by simp
  ultimately have "is_word_char c" by (cases w) auto
  with assms(2) show ?thesis by simp
qed

subsection \<open>Single rules at a given character\<close>

lemma rx_match_Lit:
  "rx_match (Lit d) (p, x # s) = (if x = d then Some (Some x, s) else None)"
  by (simp add: rx_match_def)

lemma rx_match_Dot:
  "rx_match Dot (p, x # s) = (if x \<noteq> newline then Some (Some x, s) else None)"
  by (simp add: rx_match_def)

lemma rx_match_line_comment_other:
  "x \<noteq> CHR ''/'' \<Longrightarrow> rx_match rx_line_comment (p, x # s) = None"
  by (simp add: rx_match_def rx_line_comment_def)

lemma rx_match_block_comment_other:
  "x \<noteq> CHR ''('' \<Longrightarrow> rx_match rx_block_comment (p, x # s) = None"
  by (simp add: rx_match_def rx_block_comment_def)

lemma rx_match_line_comment_single: "rx_match rx_line_comment (p, [c]) = None"
  by (simp add: rx_match_def rx_line_comment_def)

lemma rx_match_block_comment_single: "rx_match rx_block_comment (p, [c]) = None"
  by (simp add: rx_match_def rx_block_comment_def)

subsection \<open>The two comment patterns\<close>

lemma contains_close_append: "contains_close (u @ CHR ''*'' # CHR '')'' # v)"
proof (induction u)
  case Nil
  then show ?case by simp
next
  case (Cons a u)
  then show ?case by (cases u) simp_all
qed

lemma star_set_last:
  "e \<in> set (rx_ends (Star (Set cls)) (p, s)) \<Longrightarrow>
     e = (p, s) \<or> (\<exists>x. fst e = Some x \<and> in_cset x cls)"
proof (induction s arbitrary: p)
  case Nil
  then show ?case by (simp add: rx_ends.simps(7))
next
  case (Cons x s)
  show ?case
  proof (cases "in_cset x cls")
    case True
    then have "rx_ends (Star (Set cls)) (p, x # s) =
        rx_ends (Star (Set cls)) (Some x, s) @ [(p, x # s)]"
      by (subst rx_ends.simps(7)) simp
    with Cons.prems have "e \<in> set (rx_ends (Star (Set cls)) (Some x, s)) \<or> e = (p, x # s)"
      by auto
    then show ?thesis using Cons.IH[of "Some x"] True by auto
  next
    case False
    then have "rx_ends (Star (Set cls)) (p, x # s) = [(p, x # s)]"
      by (subst rx_ends.simps(7)) simp
    with Cons.prems show ?thesis by simp
  qed
qed

lemma plus_set_last:
  assumes "e \<in> set (rx_ends (Plus (Set cls)) (p, s))"
  shows "\<exists>x. fst e = Some x \<and> in_cset x cls"
proof -
  from assms obtain m where m: "m \<in> set (one_char (\<lambda>x. in_cset x cls) (p, s))"
    and e: "e \<in> set (rx_ends (Star (Set cls)) m)" by auto
  from m obtain x s' where "m = (Some x, s')" "in_cset x cls"
    by (cases s) (auto split: if_splits)
  with star_set_last[of e cls "Some x" s'] e show ?thesis by auto
qed

lemma rx_ends_SeqD:
  "e \<in> set (rx_ends (Seq a b) cur) \<Longrightarrow> \<exists>m\<in>set (rx_ends a cur). e \<in> set (rx_ends b m)"
  by auto

lemma rx_ends_LitD:
  "e \<in> set (rx_ends (Lit c) cur) \<Longrightarrow> snd cur = c # snd e \<and> fst e = Some c"
  by (cases cur; cases "snd cur") (auto split: if_splits)

lemma block_comment_closed:
  assumes "e \<in> set (rx_ends rx_block_comment (p, s))"
  shows "\<exists>t. s = CHR ''('' # CHR ''*'' # t \<and> contains_close t"
proof -
  from rx_ends_SeqD[OF assms[unfolded rx_block_comment_def]] obtain m1 where
    m1: "m1 \<in> set (rx_ends (Lit CHR ''('') (p, s))"
    and r1: "e \<in> set (rx_ends (Seq (Set [Chr CHR ''*''])
         (Seq (Star (Alt (NSet [Chr CHR ''*''])
                         (Seq (Plus (Set [Chr CHR ''*''])) (NSet [Chr CHR '')'']))))
           (Seq (Plus (Set [Chr CHR ''*''])) (Lit CHR '')'')))) m1)"
    by blast
  from rx_ends_SeqD[OF r1] obtain m2 where
    m2: "m2 \<in> set (rx_ends (Set [Chr CHR ''*'']) m1)"
    and r2: "e \<in> set (rx_ends
         (Seq (Star (Alt (NSet [Chr CHR ''*''])
                         (Seq (Plus (Set [Chr CHR ''*''])) (NSet [Chr CHR '')'']))))
           (Seq (Plus (Set [Chr CHR ''*''])) (Lit CHR '')''))) m2)"
    by blast
  from rx_ends_SeqD[OF r2] obtain m3 where
    m3: "m3 \<in> set (rx_ends (Star (Alt (NSet [Chr CHR ''*''])
                         (Seq (Plus (Set [Chr CHR ''*''])) (NSet [Chr CHR '')''])))) m2)"
    and r3: "e \<in> set (rx_ends (Seq (Plus (Set [Chr CHR ''*''])) (Lit CHR '')'')) m3)"
    by blast
  from rx_ends_SeqD[OF r3] obtain m4 where
    m4: "m4 \<in> set (rx_ends (Plus (Set [Chr CHR ''*''])) m3)"
    and e: "e \<in> set (rx_ends (Lit CHR '')'') m4)"
    by blast
  from m1 obtain s1 where s: "s = CHR ''('' # s1" and m1': "m1 = (Some CHR ''('', s1)"
    by (cases s) (simp_all split: if_splits)
  from m2 m1' obtain t where s1: "s1 = CHR ''*'' # t" and m2': "m2 = (Some CHR ''*'', t)"
    by (cases s1) (simp_all add: in_cset_def split: if_splits)
  from rx_ends_reach[OF m3] m2' obtain u where u: "t = u @ snd m3"
    by (auto simp: reach_def)
  from plus_set_last[of m4 "[Chr CHR ''*'']" "fst m3" "snd m3"] m4
  have f4: "fst m4 = Some CHR ''*''"
    by (simp add: in_cset_def)
  from rx_ends_reach[OF m4] obtain v where v: "snd m3 = v @ snd m4"
    and fv: "fst m4 = (if v = [] then fst m3 else Some (last v))"
    by (auto simp: reach_def)
  have "length (snd m4) < length (snd m3)"
    using never_empty_progress[OF _ m4] by simp
  then have vne: "v \<noteq> []" using v by auto
  then have "last v = CHR ''*''" using fv f4 by simp
  then have v': "v = butlast v @ [CHR ''*'']" using vne by (metis append_butlast_last_id)
  from rx_ends_LitD[OF e] have s4: "snd m4 = CHR '')'' # snd e" by simp
  have "snd m3 = butlast v @ [CHR ''*''] @ CHR '')'' # snd e"
    using v s4 by (subst (asm) v') simp
  then have "t = (u @ butlast v) @ CHR ''*'' # CHR '')'' # snd e"
    using u by simp
  then have "contains_close t" using contains_close_append[of "u @ butlast v" "snd e"] by simp
  then show ?thesis using s s1 by simp
qed

lemma block_comment_unterminated:
  "\<not> contains_close t \<Longrightarrow> rx_match rx_block_comment (p, CHR ''('' # CHR ''*'' # t) = None"
  using block_comment_closed[of _ p "CHR ''('' # CHR ''*'' # t"]
  by (cases "rx_ends rx_block_comment (p, CHR ''('' # CHR ''*'' # t)")
     (auto simp: rx_match_def)

lemma line_comment_has_newline:
  assumes "e \<in> set (rx_ends rx_line_comment (p, s))"
  shows "newline \<in> set s"
proof -
  from rx_ends_SeqD[OF assms[unfolded rx_line_comment_def]] obtain m1 where
    m1: "m1 \<in> set (rx_ends (Lit CHR ''/'') (p, s))"
    and r1: "e \<in> set (rx_ends (Seq (Lit CHR ''/'') (Seq (Star Dot) (Lit newline))) m1)"
    by blast
  from rx_ends_SeqD[OF r1] obtain m2 where
    r2: "e \<in> set (rx_ends (Seq (Star Dot) (Lit newline)) m2)" by blast
  from rx_ends_SeqD[OF r2] obtain m3 where
    e: "e \<in> set (rx_ends (Lit newline) m3)" by blast
  from rx_ends_LitD[OF e] have f: "fst e = Some newline" by simp
  from rx_ends_reach[OF assms] obtain u where u: "s = u @ snd e"
    and fu: "fst e = (if u = [] then p else Some (last u))"
    by (auto simp: reach_def)
  have "never_empty rx_line_comment" by (simp add: rx_line_comment_def)
  from never_empty_progress[OF this assms] u have une: "u \<noteq> []" by auto
  then have lu: "last u = newline" using f fu by simp
  from last_in_set[OF une] lu have "newline \<in> set u" by simp
  then show ?thesis using u by simp
qed

lemma line_comment_unterminated:
  "newline \<notin> set s \<Longrightarrow> rx_match rx_line_comment (p, s) = None"
  using line_comment_has_newline[of _ p s]
  by (cases "rx_ends rx_line_comment (p, s)") (auto simp: rx_match_def)

lemma star_dot_greedy:
  assumes "newline \<notin> set body"
  shows "\<exists>es. rx_ends (Star Dot) (p, body @ newline # rest) =
               (if body = [] then p else Some (last body), newline # rest) # es"
  using assms
proof (induction body arbitrary: p)
  case Nil
  show ?case by (subst rx_ends.simps(7)) simp
next
  case (Cons x body)
  from Cons.IH[of "Some x"] Cons.prems obtain es where
    es: "rx_ends (Star Dot) (Some x, body @ newline # rest) =
         (if body = [] then Some x else Some (last body), newline # rest) # es"
    by auto
  have "x \<noteq> newline" using Cons.prems by auto
  then have step: "rx_ends (Star Dot) (p, x # body @ newline # rest) =
      rx_ends (Star Dot) (Some x, body @ newline # rest) @ [(p, x # body @ newline # rest)]"
    by (subst rx_ends.simps(7)) simp
  show ?case using step es by auto
qed

lemma line_comment_terminated:
  assumes "newline \<notin> set body"
  shows "rx_match rx_line_comment (p, CHR ''/'' # CHR ''/'' # body @ newline # rest) =
         Some (Some newline, rest)"
proof -
  from star_dot_greedy[OF assms, of "Some CHR ''/''" rest] obtain es where
    "rx_ends (Star Dot) (Some CHR ''/'', body @ newline # rest) =
         (if body = [] then Some CHR ''/'' else Some (last body), newline # rest) # es"
    by blast
  then show ?thesis by (simp add: rx_match_def rx_line_comment_def)
qed

lemma contains_close_suffix: "contains_close s \<Longrightarrow> contains_close (u @ s)"
proof (induction u)
  case Nil
  then show ?case by simp
next
  case (Cons a u)
  then have "contains_close (u @ s)" by simp
  then show ?case by (cases "u @ s") simp_all
qed

lemma matched_text_append: "matched_text (p, u @ r) (q, r) = u"
  by (simp add: matched_text_def)

lemma slash_not_word: "\<not> is_word_char CHR ''/''"
  by code_simp

lemma paren_not_word: "\<not> is_word_char CHR ''(''"
  by code_simp

lemma star_not_word: "\<not> is_word_char CHR ''*''"
  by code_simp

subsection \<open>The two rule tables\<close>

lemma fstar_keywords_words: "list_all is_word fstar_keywords"
  by code_simp

lemma pulse_keywords_words: "list_all is_word pulse_keywords"
  by code_simp

lemma pulse_keywords_identifiers:
  "list_all (list_all (\<lambda>x. in_cset x [Rng CHR ''a'' CHR ''z'', Rng CHR ''A'' CHR ''Z'',
      Chr CHR ''_'', Rng CHR ''0'' CHR ''9''])) pulse_keywords"
  by code_simp

lemma pulse_keywords_not_fstar: "list_all (\<lambda>K. K \<notin> set fstar_keywords) pulse_keywords"
  by code_simp


lemma root_rules_CustomLexer: "root_rules CustomLexer = Some CustomLexer_root"
  by (simp add: root_rules_def CustomLexer_def)

lemma root_rules_PulseLexer: "root_rules PulseLexer = Some PulseLexer_root"
  by (simp add: root_rules_def PulseLexer_def)

lemma fstar_keywords_nonempty: "list_all (\<lambda>w. w \<noteq> []) fstar_keywords"
  by (simp add: fstar_keywords_def)

lemma pulse_keywords_nonempty: "list_all (\<lambda>w. w \<noteq> []) pulse_keywords"
  by (simp add: pulse_keywords_def)

lemma CustomLexer_never_empty: "list_all (\<lambda>rk. never_empty (fst rk)) CustomLexer_root"
  using fstar_keywords_nonempty
  by (simp add: CustomLexer_root_def rx_line_comment_def rx_block_comment_def rx_words_def)

lemma PulseLexer_never_empty: "list_all (\<lambda>rk. never_empty (fst rk)) PulseLexer_root"
  using fstar_keywords_nonempty pulse_keywords_nonempty
  by (simp add: PulseLexer_root_def rx_line_comment_def rx_block_comment_def rx_words_def)

lemma CustomLexer_kinds: "snd ` set CustomLexer_root = {Text, Comment, Keyword}"
  by (auto simp: CustomLexer_root_def)

lemma PulseLexer_kinds: "snd ` set PulseLexer_root = {Text, Comment, Keyword}"
  by (auto simp: PulseLexer_root_def)

lemma newline_or_dot:
  assumes "(Lit newline, k1) \<in> set rules" and "(Dot, k2) \<in> set rules"
  shows "first_match rules (p, c # s) \<noteq> None"
proof
  assume "first_match rules (p, c # s) = None"
  then have all: "\<forall>rk\<in>set rules. rx_ends (fst rk) (p, c # s) = []"
    by (simp add: first_match_None_iff)
  from bspec[OF all assms(1)] have "c \<noteq> newline" by (simp split: if_splits)
  moreover from bspec[OF all assms(2)] have "c = newline" by (simp split: if_splits)
  ultimately show False by simp
qed

lemma CustomLexer_total: "first_match CustomLexer_root (p, c # s) \<noteq> None"
  by (rule newline_or_dot[of Text _ Text]) (simp_all add: CustomLexer_root_def)

lemma PulseLexer_total: "first_match PulseLexer_root (p, c # s) \<noteq> None"
  by (rule newline_or_dot[of Text _ Text]) (simp_all add: PulseLexer_root_def)

lemma CustomLexer_run:
  "\<exists>ts. get_tokens_unprocessed CustomLexer S = Some ts \<and> concat (map snd ts) = S \<and>
        length ts \<le> length S \<and>
        (\<forall>t\<in>set ts. fst t \<in> {Text, Comment, Keyword} \<and> snd t \<noteq> [])"
  using lex_loop_total[OF CustomLexer_never_empty CustomLexer_total, of S "Suc (length S)" None]
  by (simp add: get_tokens_unprocessed_def root_rules_CustomLexer CustomLexer_kinds)

lemma PulseLexer_run:
  "\<exists>ts. get_tokens_unprocessed PulseLexer S = Some ts \<and> concat (map snd ts) = S \<and>
        length ts \<le> length S \<and>
        (\<forall>t\<in>set ts. fst t \<in> {Text, Comment, Keyword} \<and> snd t \<noteq> [])"
  using lex_loop_total[OF PulseLexer_never_empty PulseLexer_total, of S "Suc (length S)" None]
  by (simp add: get_tokens_unprocessed_def root_rules_PulseLexer PulseLexer_kinds)

lemma get_tokens_CustomLexer:
  "get_tokens_unprocessed CustomLexer S = scan_from CustomLexer_root (None, S)"
  by (simp add: get_tokens_unprocessed_def root_rules_CustomLexer scan_from_def)

lemma get_tokens_PulseLexer:
  "get_tokens_unprocessed PulseLexer S = scan_from PulseLexer_root (None, S)"
  by (simp add: get_tokens_unprocessed_def root_rules_PulseLexer scan_from_def)

subsection \<open>Keywords and identifiers under the two tables\<close>

lemma CustomLexer_first_word:
  assumes "is_word_char x"
  shows "first_match CustomLexer_root (p, x # s) =
     (case rx_match (rx_words fstar_keywords) (p, x # s) of
        Some e \<Rightarrow> Some (Keyword, e)
      | None \<Rightarrow>
          (case rx_match (Plus (Set [Rng CHR ''a'' CHR ''z'', Rng CHR ''A'' CHR ''Z'',
                   Chr CHR ''_'', Rng CHR ''0'' CHR ''9''])) (p, x # s) of
             Some e \<Rightarrow> Some (Text, e)
           | None \<Rightarrow> Some (Text, (Some x, s))))"
  using word_char_not_special[OF assms]
  by (simp add: CustomLexer_root_def rx_match_Lit rx_match_Dot rx_match_line_comment_other
      rx_match_block_comment_other split: option.splits)

lemma PulseLexer_first_word:
  assumes "is_word_char x"
  shows "first_match PulseLexer_root (p, x # s) =
     (case rx_match (rx_words fstar_keywords) (p, x # s) of
        Some e \<Rightarrow> Some (Keyword, e)
      | None \<Rightarrow>
          (case rx_match (rx_words pulse_keywords) (p, x # s) of
             Some e \<Rightarrow> Some (Keyword, e)
           | None \<Rightarrow>
              (case rx_match (Plus (Set [Rng CHR ''a'' CHR ''z'', Rng CHR ''A'' CHR ''Z'',
                       Chr CHR ''_''])) (p, x # s) of
                 Some e \<Rightarrow> Some (Text, e)
               | None \<Rightarrow> Some (Text, (Some x, s)))))"
  using word_char_not_special[OF assms]
  by (simp add: PulseLexer_root_def rx_match_Lit rx_match_Dot rx_match_line_comment_other
      rx_match_block_comment_other split: option.splits)

lemma CustomLexer_first_single:
  assumes "\<not> is_word_char c"
  shows "first_match CustomLexer_root (q, [c]) = Some (Text, (Some c, []))"
proof -
  have "\<not> in_cset c [Rng CHR ''a'' CHR ''z'', Rng CHR ''A'' CHR ''Z'', Chr CHR ''_'',
                      Rng CHR ''0'' CHR ''9'']"
    using assms base_class_word by blast
  then show ?thesis
    using rx_words_nonword_start[OF fstar_keywords_words assms, of q "[]"]
    by (simp add: CustomLexer_root_def rx_match_Lit rx_match_Dot rx_match_line_comment_single
        rx_match_block_comment_single identifier_no_match)
qed

lemma PulseLexer_first_single:
  assumes "\<not> is_word_char c"
  shows "first_match PulseLexer_root (q, [c]) = Some (Text, (Some c, []))"
proof -
  have "\<not> in_cset c [Rng CHR ''a'' CHR ''z'', Rng CHR ''A'' CHR ''Z'', Chr CHR ''_'']"
    using assms pulse_class_word by blast
  then show ?thesis
    using rx_words_nonword_start[OF fstar_keywords_words assms, of q "[]"]
      rx_words_nonword_start[OF pulse_keywords_words assms, of q "[]"]
    by (simp add: PulseLexer_root_def rx_match_Lit rx_match_Dot rx_match_line_comment_single
        rx_match_block_comment_single identifier_no_match)
qed

lemma CustomLexer_scan_single:
  "\<not> is_word_char c \<Longrightarrow> scan_from CustomLexer_root (q, [c]) = Some [(Text, [c])]"
  using scan_from_step[OF CustomLexer_first_single, of c q]
    scan_from_end[OF CustomLexer_never_empty, of "Some c"]
  by (simp add: matched_text_def)

lemma PulseLexer_scan_single:
  "\<not> is_word_char c \<Longrightarrow> scan_from PulseLexer_root (q, [c]) = Some [(Text, [c])]"
  using scan_from_step[OF PulseLexer_first_single, of c q]
    scan_from_end[OF PulseLexer_never_empty, of "Some c"]
  by (simp add: matched_text_def)

lemma CustomLexer_scan_keyword:
  assumes K: "K \<in> set fstar_keywords" and t: "\<not> word_after (q, t)"
  shows "scan_from CustomLexer_root (p, K @ t) =
         map_option ((#) (Keyword, K)) (scan_from CustomLexer_root (Some (last K), t))"
proof -
  have "is_word K" using K fstar_keywords_words by (auto simp: list_all_iff)
  then obtain x K' where xK: "K = x # K'" and x: "is_word_char x"
    by (cases K) (auto simp: is_word_def)
  have "rx_match (rx_words fstar_keywords) (p, K @ t) = Some (Some (last K), t)"
    using rx_words_match[OF fstar_keywords_words K t] .
  then have "first_match CustomLexer_root (p, K @ t) = Some (Keyword, (Some (last K), t))"
    using CustomLexer_first_word[OF x, of p "K' @ t"] xK by simp
  from scan_from_step[OF this] show ?thesis by (simp add: matched_text_def)
qed

lemma PulseLexer_scan_keyword:
  assumes K: "K \<in> set fstar_keywords \<or> K \<in> set pulse_keywords" and t: "\<not> word_after (q, t)"
  shows "scan_from PulseLexer_root (p, K @ t) =
         map_option ((#) (Keyword, K)) (scan_from PulseLexer_root (Some (last K), t))"
proof -
  have Kw: "is_word K" using K fstar_keywords_words pulse_keywords_words
    by (auto simp: list_all_iff)
  then obtain x K' where xK: "K = x # K'" and x: "is_word_char x"
    by (cases K) (auto simp: is_word_def)
  have "first_match PulseLexer_root (p, K @ t) = Some (Keyword, (Some (last K), t))"
  proof (cases "K \<in> set fstar_keywords")
    case True
    from rx_words_match[OF fstar_keywords_words True t, of p] show ?thesis
      using PulseLexer_first_word[OF x, of p "K' @ t"] xK by simp
  next
    case False
    with K have Kp: "K \<in> set pulse_keywords" by simp
    from rx_words_no_match[OF fstar_keywords_words Kw t False, of p]
      rx_words_match[OF pulse_keywords_words Kp t, of p]
    show ?thesis using PulseLexer_first_word[OF x, of p "K' @ t"] xK by simp
  qed
  from scan_from_step[OF this] show ?thesis by (simp add: matched_text_def)
qed

lemma CustomLexer_scan_pulse_keyword:
  assumes K: "K \<in> set pulse_keywords" and t: "\<not> word_after (q, t)"
  shows "scan_from CustomLexer_root (p, K @ t) =
         map_option ((#) (Text, K)) (scan_from CustomLexer_root (Some (last K), t))"
proof -
  have Kw: "is_word K" using K pulse_keywords_words by (auto simp: list_all_iff)
  then obtain x K' where xK: "K = x # K'" and x: "is_word_char x"
    by (cases K) (auto simp: is_word_def)
  have nf: "K \<notin> set fstar_keywords" using K pulse_keywords_not_fstar by (auto simp: list_all_iff)
  have cls: "list_all (\<lambda>x. in_cset x [Rng CHR ''a'' CHR ''z'', Rng CHR ''A'' CHR ''Z'',
      Chr CHR ''_'', Rng CHR ''0'' CHR ''9'']) K"
    using K pulse_keywords_identifiers by (auto simp: list_all_iff)
  have t': "t = [] \<or> \<not> in_cset (hd t) [Rng CHR ''a'' CHR ''z'', Rng CHR ''A'' CHR ''Z'',
      Chr CHR ''_'', Rng CHR ''0'' CHR ''9'']"
    using t base_class_word by (cases t) auto
  have Kne: "K \<noteq> []" using xK by simp
  from rx_words_no_match[OF fstar_keywords_words Kw t nf, of p]
    identifier_match[OF Kne cls t', of p]
  have "first_match CustomLexer_root (p, K @ t) = Some (Text, (Some (last K), t))"
    using CustomLexer_first_word[OF x, of p "K' @ t"] xK by simp
  from scan_from_step[OF this] show ?thesis by (simp add: matched_text_def)
qed

lemma CustomLexer_scan_total: "\<exists>ts. scan_from CustomLexer_root (p, s) = Some ts"
  using lex_loop_total[OF CustomLexer_never_empty CustomLexer_total, of s "Suc (length s)" p]
  by (auto simp: scan_from_def)

lemma PulseLexer_scan_total: "\<exists>ts. scan_from PulseLexer_root (p, s) = Some ts"
  using lex_loop_total[OF PulseLexer_never_empty PulseLexer_total, of s "Suc (length s)" p]
  by (auto simp: scan_from_def)

lemma CustomLexer_keyword_rule:
  "(r, Keyword) \<in> set CustomLexer_root \<Longrightarrow> \<exists>ws. r = rx_words ws"
  by (auto simp: CustomLexer_root_def)

lemma PulseLexer_keyword_rule:
  "(r, Keyword) \<in> set PulseLexer_root \<Longrightarrow> \<exists>ws. r = rx_words ws"
  by (auto simp: PulseLexer_root_def)

lemma keyword_not_before_word_char:
  assumes fm: "first_match rules (p, K @ c # rest) = Some (Keyword, e)"
    and kw: "\<And>r. (r, Keyword) \<in> set rules \<Longrightarrow> \<exists>ws. r = rx_words ws"
    and K: "K \<noteq> []" and lK: "is_word_char (last K)" and c: "is_word_char c"
  shows "matched_text (p, K @ c # rest) e \<noteq> K"
proof
  assume mt: "matched_text (p, K @ c # rest) e = K"
  from first_match_Some[OF fm] obtain r where r: "(r, Keyword) \<in> set rules"
    and m: "rx_match r (p, K @ c # rest) = Some e" by blast
  from kw[OF r] obtain ws where ws: "r = rx_words ws" by blast
  from rx_words_boundary[OF m[unfolded ws]] obtain w where
    b: "at_boundary e" and le: "e \<in> set (lit_ends w (p, K @ c # rest))" by blast
  have "reach (p, K @ c # rest) e" using rx_ends_reach[OF rx_match_Some_mem[OF m]] .
  from reach_matched_text[OF this] mt have se: "snd e = c # rest" by simp
  from lit_ends_mem[OF le] se have "w = K" and "fst e = (if w = [] then p else Some (last w))"
    by simp_all
  then have "fst e = Some (last K)" using K by simp
  then have "word_before e" "word_after e" using se lK c by (cases e; simp)+
  with b show False by (simp add: at_boundary_def)
qed

lemma first_token_not_keyword:
  assumes tot: "first_match rules (p, K @ c # rest) \<noteq> None"
    and run: "\<And>e. \<exists>ts. scan_from rules e = Some ts"
    and kw: "\<And>r. (r, Keyword) \<in> set rules \<Longrightarrow> \<exists>ws. r = rx_words ws"
    and K: "is_word K" and c: "is_word_char c"
  shows "\<exists>ts. scan_from rules (p, K @ c # rest) = Some ts \<and> ts \<noteq> [] \<and> hd ts \<noteq> (Keyword, K)"
proof -
  from tot obtain k e where fm: "first_match rules (p, K @ c # rest) = Some (k, e)" by auto
  from run[of e] obtain ts where ts: "scan_from rules e = Some ts" by blast
  have s: "scan_from rules (p, K @ c # rest) = Some ((k, matched_text (p, K @ c # rest) e) # ts)"
    using scan_from_step[OF fm] ts by simp
  have Kne: "K \<noteq> []" and lK: "is_word_char (last K)"
    using K by (auto simp: is_word_def list_all_iff)
  have "(k, matched_text (p, K @ c # rest) e) \<noteq> (Keyword, K)"
  proof
    assume "(k, matched_text (p, K @ c # rest) e) = (Keyword, K)"
    then have k: "k = Keyword" and mt: "matched_text (p, K @ c # rest) e = K" by simp_all
    from fm k have fm': "first_match rules (p, K @ c # rest) = Some (Keyword, e)" by simp
    from keyword_not_before_word_char[OF fm' kw Kne lK c] mt show False by simp
  qed
  with s show ?thesis by simp
qed

subsection \<open>Comments under the two tables\<close>

lemma CustomLexer_first_symbol:
  assumes "\<not> is_word_char c" and "c \<noteq> CHR '' ''" and "c \<noteq> newline" and "c \<noteq> carriage_return"
    and "rx_match rx_line_comment (p, c # s) = None"
    and "rx_match rx_block_comment (p, c # s) = None"
  shows "first_match CustomLexer_root (p, c # s) = Some (Text, (Some c, s))"
proof -
  have "\<not> in_cset c [Rng CHR ''a'' CHR ''z'', Rng CHR ''A'' CHR ''Z'', Chr CHR ''_'',
                      Rng CHR ''0'' CHR ''9'']"
    using assms(1) base_class_word by blast
  then show ?thesis
    using rx_words_nonword_start[OF fstar_keywords_words assms(1), of p s] assms
    by (simp add: CustomLexer_root_def rx_match_Lit rx_match_Dot identifier_no_match)
qed

lemma PulseLexer_first_symbol:
  assumes "\<not> is_word_char c" and "c \<noteq> CHR '' ''" and "c \<noteq> newline" and "c \<noteq> carriage_return"
    and "rx_match rx_line_comment (p, c # s) = None"
    and "rx_match rx_block_comment (p, c # s) = None"
  shows "first_match PulseLexer_root (p, c # s) = Some (Text, (Some c, s))"
proof -
  have "\<not> in_cset c [Rng CHR ''a'' CHR ''z'', Rng CHR ''A'' CHR ''Z'', Chr CHR ''_'']"
    using assms(1) pulse_class_word by blast
  then show ?thesis
    using rx_words_nonword_start[OF fstar_keywords_words assms(1), of p s]
      rx_words_nonword_start[OF pulse_keywords_words assms(1), of p s] assms
    by (simp add: PulseLexer_root_def rx_match_Lit rx_match_Dot identifier_no_match)
qed

lemma CustomLexer_comment_rule:
  "(r, Comment) \<in> set CustomLexer_root \<Longrightarrow> r = rx_line_comment \<or> r = rx_block_comment"
  by (auto simp: CustomLexer_root_def)

lemma PulseLexer_comment_rule:
  "(r, Comment) \<in> set PulseLexer_root \<Longrightarrow> r = rx_line_comment \<or> r = rx_block_comment"
  by (auto simp: PulseLexer_root_def)

lemma scan_from_no_comment:
  assumes ne: "list_all (\<lambda>rk. never_empty (fst rk)) rules"
    and tot: "\<And>p c s. first_match rules (p, c # s) \<noteq> None"
    and com: "\<And>r. (r, Comment) \<in> set rules \<Longrightarrow> r = rx_line_comment \<or> r = rx_block_comment"
  shows "newline \<notin> set s \<Longrightarrow> \<not> contains_close s \<Longrightarrow>
         \<exists>ts. scan_from rules (p, s) = Some ts \<and> (\<forall>t\<in>set ts. fst t \<noteq> Comment)"
proof (induction "length s" arbitrary: p s rule: less_induct)
  case less
  show ?case
  proof (cases s)
    case Nil
    then show ?thesis using scan_from_end[OF ne, of p] by simp
  next
    case (Cons c s')
    with tot[of p c s'] obtain k e where fm: "first_match rules (p, s) = Some (k, e)" by auto
    have r: "reach (p, s) e" and lt: "length (snd e) < length s"
      using first_match_progress[OF ne fm] by simp_all
    from r obtain u where u: "s = u @ snd e" by (auto simp: reach_def)
    have "newline \<notin> set (snd e)" using less.prems(1) u
      by (metis Un_iff set_append)
    moreover have "\<not> contains_close (snd e)" using less.prems(2) u contains_close_suffix by metis
    ultimately obtain ts where ts: "scan_from rules (fst e, snd e) = Some ts"
      and all: "\<forall>t\<in>set ts. fst t \<noteq> Comment"
      using less.hyps[OF lt, of "fst e"] by blast
    have "k \<noteq> Comment"
    proof
      assume k: "k = Comment"
      from first_match_Some[OF fm] k obtain r' where r': "(r', Comment) \<in> set rules"
        and m: "rx_match r' (p, s) = Some e" by blast
      from com[OF r'] show False
      proof
        assume "r' = rx_line_comment"
        with m line_comment_unterminated[OF less.prems(1), of p] show False by simp
      next
        assume "r' = rx_block_comment"
        with m have "e \<in> set (rx_ends rx_block_comment (p, s))" by (simp add: rx_match_Some_mem)
        from block_comment_closed[OF this] obtain t where "s = CHR ''('' # CHR ''*'' # t"
          and "contains_close t" by blast
        then have "contains_close s" using contains_close_suffix[of t "''(*''"] by simp
        with less.prems(2) show False by simp
      qed
    qed
    then show ?thesis using scan_from_step[OF fm] ts all by simp
  qed
qed

lemma CustomLexer_no_comment:
  "newline \<notin> set s \<Longrightarrow> \<not> contains_close s \<Longrightarrow>
     \<exists>ts. scan_from CustomLexer_root (p, s) = Some ts \<and> (\<forall>t\<in>set ts. fst t \<noteq> Comment)"
  using scan_from_no_comment[OF CustomLexer_never_empty CustomLexer_total CustomLexer_comment_rule]
  by blast

lemma PulseLexer_no_comment:
  "newline \<notin> set s \<Longrightarrow> \<not> contains_close s \<Longrightarrow>
     \<exists>ts. scan_from PulseLexer_root (p, s) = Some ts \<and> (\<forall>t\<in>set ts. fst t \<noteq> Comment)"
  using scan_from_no_comment[OF PulseLexer_never_empty PulseLexer_total PulseLexer_comment_rule]
  by blast

lemma CustomLexer_two_slashes:
  assumes "newline \<notin> set rest"
  shows "scan_from CustomLexer_root (p, CHR ''/'' # CHR ''/'' # rest) =
         map_option (\<lambda>ts. (Text, ''/'') # (Text, ''/'') # ts)
           (scan_from CustomLexer_root (Some CHR ''/'', rest))"
proof -
  have n: "CHR ''/'' \<noteq> newline" "CHR ''/'' \<noteq> carriage_return"
    by (simp_all add: newline_def carriage_return_def)
  have 1: "first_match CustomLexer_root (p, CHR ''/'' # CHR ''/'' # rest) =
           Some (Text, (Some CHR ''/'', CHR ''/'' # rest))"
    using assms n
    by (intro CustomLexer_first_symbol slash_not_word line_comment_unterminated
        rx_match_block_comment_other) simp_all
  have 2: "first_match CustomLexer_root (Some CHR ''/'', CHR ''/'' # rest) =
           Some (Text, (Some CHR ''/'', rest))"
    using assms n
    by (intro CustomLexer_first_symbol slash_not_word line_comment_unterminated
        rx_match_block_comment_other) simp_all
  show ?thesis
    using scan_from_step[OF 1] scan_from_step[OF 2]
    by (simp add: matched_text_def option.map_comp comp_def)
qed

lemma PulseLexer_two_slashes:
  assumes "newline \<notin> set rest"
  shows "scan_from PulseLexer_root (p, CHR ''/'' # CHR ''/'' # rest) =
         map_option (\<lambda>ts. (Text, ''/'') # (Text, ''/'') # ts)
           (scan_from PulseLexer_root (Some CHR ''/'', rest))"
proof -
  have n: "CHR ''/'' \<noteq> newline" "CHR ''/'' \<noteq> carriage_return"
    by (simp_all add: newline_def carriage_return_def)
  have 1: "first_match PulseLexer_root (p, CHR ''/'' # CHR ''/'' # rest) =
           Some (Text, (Some CHR ''/'', CHR ''/'' # rest))"
    using assms n
    by (intro PulseLexer_first_symbol slash_not_word line_comment_unterminated
        rx_match_block_comment_other) simp_all
  have 2: "first_match PulseLexer_root (Some CHR ''/'', CHR ''/'' # rest) =
           Some (Text, (Some CHR ''/'', rest))"
    using assms n
    by (intro PulseLexer_first_symbol slash_not_word line_comment_unterminated
        rx_match_block_comment_other) simp_all
  show ?thesis
    using scan_from_step[OF 1] scan_from_step[OF 2]
    by (simp add: matched_text_def option.map_comp comp_def)
qed

lemma CustomLexer_open_unterminated:
  assumes "\<not> contains_close t"
  shows "first_match CustomLexer_root (p, CHR ''('' # CHR ''*'' # t) =
           Some (Text, (Some CHR ''('', CHR ''*'' # t))"
    and "first_match CustomLexer_root (q, CHR ''*'' # t) = Some (Text, (Some CHR ''*'', t))"
proof -
  have n: "CHR ''('' \<noteq> newline" "CHR ''('' \<noteq> carriage_return"
    "CHR ''*'' \<noteq> newline" "CHR ''*'' \<noteq> carriage_return"
    by (simp_all add: newline_def carriage_return_def)
  show "first_match CustomLexer_root (p, CHR ''('' # CHR ''*'' # t) =
           Some (Text, (Some CHR ''('', CHR ''*'' # t))"
    using assms n
    by (intro CustomLexer_first_symbol paren_not_word block_comment_unterminated
        rx_match_line_comment_other) simp_all
  show "first_match CustomLexer_root (q, CHR ''*'' # t) = Some (Text, (Some CHR ''*'', t))"
    using n
    by (intro CustomLexer_first_symbol star_not_word rx_match_block_comment_other
        rx_match_line_comment_other) simp_all
qed

lemma PulseLexer_open_unterminated:
  assumes "\<not> contains_close t"
  shows "first_match PulseLexer_root (p, CHR ''('' # CHR ''*'' # t) =
           Some (Text, (Some CHR ''('', CHR ''*'' # t))"
    and "first_match PulseLexer_root (q, CHR ''*'' # t) = Some (Text, (Some CHR ''*'', t))"
proof -
  have n: "CHR ''('' \<noteq> newline" "CHR ''('' \<noteq> carriage_return"
    "CHR ''*'' \<noteq> newline" "CHR ''*'' \<noteq> carriage_return"
    by (simp_all add: newline_def carriage_return_def)
  show "first_match PulseLexer_root (p, CHR ''('' # CHR ''*'' # t) =
           Some (Text, (Some CHR ''('', CHR ''*'' # t))"
    using assms n
    by (intro PulseLexer_first_symbol paren_not_word block_comment_unterminated
        rx_match_line_comment_other) simp_all
  show "first_match PulseLexer_root (q, CHR ''*'' # t) = Some (Text, (Some CHR ''*'', t))"
    using n
    by (intro PulseLexer_first_symbol star_not_word rx_match_block_comment_other
        rx_match_line_comment_other) simp_all
qed

lemma CustomLexer_line_comment:
  assumes "newline \<notin> set body"
  shows "first_match CustomLexer_root (p, CHR ''/'' # CHR ''/'' # body @ newline # after) =
         Some (Comment, (Some newline, after))"
  using line_comment_terminated[OF assms, of p after]
  by (simp add: CustomLexer_root_def rx_match_Lit newline_def carriage_return_def)

lemma PulseLexer_line_comment:
  assumes "newline \<notin> set body"
  shows "first_match PulseLexer_root (p, CHR ''/'' # CHR ''/'' # body @ newline # after) =
         Some (Comment, (Some newline, after))"
  using line_comment_terminated[OF assms, of p after]
  by (simp add: PulseLexer_root_def rx_match_Lit newline_def carriage_return_def)

section \<open>Properties\<close>

subsection \<open>Round trip, progress and vocabulary\<close>

text \<open>
  C1. For every input \<open>S\<close>, each of the two lexers returns a finite list of tokens, and the
  texts of the tokens, concatenated in order, are \<open>S\<close>: nothing is skipped and nothing is
  emitted twice.
\<close>

theorem round_trip:
  "(\<exists>ts. get_tokens_unprocessed CustomLexer S = Some ts \<and> concat (map snd ts) = S) \<and>
   (\<exists>ts. get_tokens_unprocessed PulseLexer S = Some ts \<and> concat (map snd ts) = S)"
  using CustomLexer_run[of S] PulseLexer_run[of S] by blast

text \<open>
  C2. At every scan position \<open>cur\<close>, the rule that the chain of either lexer commits to ends
  strictly after \<open>cur\<close>: no match of width zero is committed. Hence the loop returns
  within \<open>length S + 1\<close> iterations, the last of which finds the end of the input, and it
  has applied at most \<open>length S\<close> rules, one for each token.
\<close>

theorem rule_progress:
  "(first_match CustomLexer_root cur = Some (k, e) \<longrightarrow> length (snd e) < length (snd cur)) \<and>
   (first_match PulseLexer_root cur = Some (k, e) \<longrightarrow> length (snd e) < length (snd cur)) \<and>
   (\<exists>ts. get_tokens_unprocessed CustomLexer S = Some ts \<and> length ts \<le> length S) \<and>
   (\<exists>ts. get_tokens_unprocessed PulseLexer S = Some ts \<and> length ts \<le> length S)"
  using first_match_progress(2)[OF CustomLexer_never_empty, of cur k e]
    first_match_progress(2)[OF PulseLexer_never_empty, of cur k e]
    CustomLexer_run[of S] PulseLexer_run[of S]
  by blast

theorem rule_progress_witness:
  "first_match CustomLexer_root (None, ''let x'') = Some (Keyword, (Some CHR ''t'', '' x'')) \<and>
   first_match PulseLexer_root (None, ''let x'') = Some (Keyword, (Some CHR ''t'', '' x'')) \<and>
   length '' x'' < length ''let x''"
proof -
  have 1: "first_match CustomLexer_root (None, ''let x'') = Some (Keyword, (Some CHR ''t'', '' x''))"
    by code_simp
  have 2: "first_match PulseLexer_root (None, ''let x'') = Some (Keyword, (Some CHR ''t'', '' x''))"
    by code_simp
  show ?thesis
    using 1 2 rule_progress[of "(None, ''let x'')" Keyword "(Some CHR ''t'', '' x'')" "''let x''"]
    by simp
qed

text \<open>
  C4. For every input, each of the two lexers returns a token list (there is no failure
  and no input on which the loop does not end), and every token in it has one of the
  kinds \<open>Text\<close>, \<open>Comment\<close>, \<open>Keyword\<close>: the branch of the loop that yields \<open>Error\<close> or
  \<open>Whitespace\<close> is never taken.
\<close>

theorem closed_vocabulary:
  "(\<exists>ts. get_tokens_unprocessed CustomLexer S = Some ts \<and>
         (\<forall>t\<in>set ts. fst t \<in> {Text, Comment, Keyword})) \<and>
   (\<exists>ts. get_tokens_unprocessed PulseLexer S = Some ts \<and>
         (\<forall>t\<in>set ts. fst t \<in> {Text, Comment, Keyword}))"
  using CustomLexer_run[of S] PulseLexer_run[of S] by blast

theorem closed_vocabulary_witness:
  "get_tokens_unprocessed CustomLexer ''(**)let x'' =
     Some [(Comment, ''(**)''), (Keyword, ''let''), (Text, '' ''), (Text, ''x'')] \<and>
   get_tokens_unprocessed PulseLexer ''(**)let x'' =
     Some [(Comment, ''(**)''), (Keyword, ''let''), (Text, '' ''), (Text, ''x'')] \<and>
   set (map fst [(Comment, ''(**)''), (Keyword, ''let''), (Text, '' ''), (Text, ''x'')])
     \<subseteq> {Text, Comment, Keyword}"
proof -
  have 1: "get_tokens_unprocessed CustomLexer ''(**)let x'' =
     Some [(Comment, ''(**)''), (Keyword, ''let''), (Text, '' ''), (Text, ''x'')]"
    by code_simp
  have 2: "get_tokens_unprocessed PulseLexer ''(**)let x'' =
     Some [(Comment, ''(**)''), (Keyword, ''let''), (Text, '' ''), (Text, ''x'')]"
    by code_simp
  show ?thesis
    using 1 2 closed_vocabulary[of "''(**)let x''"] by simp
qed

subsection \<open>The catch-all rule\<close>

text \<open>
  C3, as the claim states it, fails: the last rule of either table is \<^verbatim>\<open>.\<close>, compiled
  without \<^verbatim>\<open>re.DOTALL\<close>, and does not match the newline.
\<close>

theorem catch_all_newline_counterexample:
  "rx_match (fst (last CustomLexer_root)) (None, [newline]) = None \<and>
   rx_match (fst (last PulseLexer_root)) (None, [newline]) = None"
  by code_simp

text \<open>
  C3, amended. The last rule of either table matches every single character other than the
  newline; the newline is matched by the second rule of the table; so at every position
  before the end of the input some rule of the chain matches.
\<close>

theorem catch_all_totality:
  "(c \<noteq> newline \<longrightarrow>
      rx_match (fst (last CustomLexer_root)) (p, c # s) = Some (Some c, s) \<and>
      rx_match (fst (last PulseLexer_root)) (p, c # s) = Some (Some c, s)) \<and>
   rx_match (fst (CustomLexer_root ! 1)) (p, newline # s) = Some (Some newline, s) \<and>
   rx_match (fst (PulseLexer_root ! 1)) (p, newline # s) = Some (Some newline, s) \<and>
   first_match CustomLexer_root (p, c # s) \<noteq> None \<and>
   first_match PulseLexer_root (p, c # s) \<noteq> None"
proof -
  have "last CustomLexer_root = (Dot, Text)" "last PulseLexer_root = (Dot, Text)"
    "CustomLexer_root ! 1 = (Lit newline, Text)" "PulseLexer_root ! 1 = (Lit newline, Text)"
    by (simp_all add: CustomLexer_root_def PulseLexer_root_def)
  then show ?thesis
    using CustomLexer_total[of p c s] PulseLexer_total[of p c s]
    by (simp add: rx_match_def)
qed

theorem catch_all_totality_witness:
  "CHR ''a'' \<noteq> newline \<and>
   rx_match (fst (last CustomLexer_root)) (None, ''a'') = Some (Some CHR ''a'', []) \<and>
   rx_match (fst (last PulseLexer_root)) (None, ''a'') = Some (Some CHR ''a'', [])"
proof -
  have h: "CHR ''a'' \<noteq> newline" by (simp add: newline_def)
  show ?thesis using h catch_all_totality[of "CHR ''a''" None "[]"] by simp
qed

subsection \<open>Keywords\<close>

text \<open>
  C5, as the claim states it, fails. The boundary \<^verbatim>\<open>\b\<close> does not test the identifier
  classes of the tables but the class \<^verbatim>\<open>\w\<close>, which holds of more characters than
  letters, digits and the underscore: the fraction U+00BC is none of these and is in
  neither identifier class, yet after the keyword \<^verbatim>\<open>let\<close> it leaves no boundary, and
  \<^verbatim>\<open>let\<close> is emitted as \<open>Text\<close>.
\<close>

theorem keyword_boundary_counterexample:
  "''let'' \<in> set fstar_keywords \<and>
   \<not> in_cset (CHR 0xBC) [Rng CHR ''a'' CHR ''z'', Rng CHR ''A'' CHR ''Z'', Chr CHR ''_'',
                          Rng CHR ''0'' CHR ''9''] \<and>
   get_tokens_unprocessed CustomLexer (''let'' @ [CHR 0xBC]) =
     Some [(Text, ''let''), (Text, [CHR 0xBC])] \<and>
   get_tokens_unprocessed PulseLexer (''let'' @ [CHR 0xBC]) =
     Some [(Text, ''let''), (Text, [CHR 0xBC])]"
  by code_simp

text \<open>
  C5, amended. Let \<open>K\<close> be a keyword of the active set of a lexer (\<open>fstar_keywords\<close> for
  the base lexer, both tables for the extension lexer) and \<open>c\<close> a character. The
  characters that matter are those of the class \<^verbatim>\<open>\w\<close>, which \<^verbatim>\<open>\b\<close> tests: the
  alphanumeric characters of Unicode (letters, digits, and other numeric characters such
  as U+00BC) and the underscore.
  \<^item> If \<open>c\<close> is not a \<^verbatim>\<open>\w\<close> character, the input \<open>K\<close> followed by \<open>c\<close> is the token
    \<open>(Keyword, K)\<close> and then \<open>c\<close> as \<open>Text\<close>; and whatever follows \<open>c\<close>, the first token is
    \<open>(Keyword, K)\<close>.
  \<^item> If \<open>c\<close> is a \<^verbatim>\<open>\w\<close> character (in particular a letter, a digit or the underscore),
    the first token of \<open>K\<close> followed by \<open>c\<close> and by anything is not \<open>(Keyword, K)\<close>.
  \<^item> The input \<^verbatim>\<open>letrec\<close> is the single token \<open>(Text, letrec)\<close> for both lexers.
\<close>

theorem keyword_boundary:
  "(K \<in> set fstar_keywords \<longrightarrow>
      (\<not> is_word_char c \<longrightarrow>
         get_tokens_unprocessed CustomLexer (K @ [c]) = Some [(Keyword, K), (Text, [c])] \<and>
         (\<exists>ts. get_tokens_unprocessed CustomLexer (K @ c # rest) = Some ((Keyword, K) # ts))) \<and>
      (is_word_char c \<longrightarrow>
         (\<exists>ts. get_tokens_unprocessed CustomLexer (K @ c # rest) = Some ts \<and> ts \<noteq> [] \<and>
               hd ts \<noteq> (Keyword, K)))) \<and>
   (K \<in> set fstar_keywords \<union> set pulse_keywords \<longrightarrow>
      (\<not> is_word_char c \<longrightarrow>
         get_tokens_unprocessed PulseLexer (K @ [c]) = Some [(Keyword, K), (Text, [c])] \<and>
         (\<exists>ts. get_tokens_unprocessed PulseLexer (K @ c # rest) = Some ((Keyword, K) # ts))) \<and>
      (is_word_char c \<longrightarrow>
         (\<exists>ts. get_tokens_unprocessed PulseLexer (K @ c # rest) = Some ts \<and> ts \<noteq> [] \<and>
               hd ts \<noteq> (Keyword, K)))) \<and>
   get_tokens_unprocessed CustomLexer ''letrec'' = Some [(Text, ''letrec'')] \<and>
   get_tokens_unprocessed PulseLexer ''letrec'' = Some [(Text, ''letrec'')]"
proof -
  have custom_pos: "get_tokens_unprocessed CustomLexer (K @ [c]) = Some [(Keyword, K), (Text, [c])]"
    and custom_pos': "\<exists>ts. get_tokens_unprocessed CustomLexer (K @ c # rest) = Some ((Keyword, K) # ts)"
    if K: "K \<in> set fstar_keywords" and c: "\<not> is_word_char c"
  proof -
    show "get_tokens_unprocessed CustomLexer (K @ [c]) = Some [(Keyword, K), (Text, [c])]"
      using CustomLexer_scan_keyword[OF K, of None "[c]" None] CustomLexer_scan_single[OF c] c
      by (simp add: get_tokens_CustomLexer)
    from CustomLexer_scan_total[of "Some (last K)" "c # rest"] obtain ts where
      "scan_from CustomLexer_root (Some (last K), c # rest) = Some ts" by blast
    then show "\<exists>ts. get_tokens_unprocessed CustomLexer (K @ c # rest) = Some ((Keyword, K) # ts)"
      using CustomLexer_scan_keyword[OF K, of None "c # rest" None] c
      by (simp add: get_tokens_CustomLexer)
  qed
  have pulse_pos: "get_tokens_unprocessed PulseLexer (K @ [c]) = Some [(Keyword, K), (Text, [c])]"
    and pulse_pos': "\<exists>ts. get_tokens_unprocessed PulseLexer (K @ c # rest) = Some ((Keyword, K) # ts)"
    if K: "K \<in> set fstar_keywords \<or> K \<in> set pulse_keywords" and c: "\<not> is_word_char c"
  proof -
    show "get_tokens_unprocessed PulseLexer (K @ [c]) = Some [(Keyword, K), (Text, [c])]"
      using PulseLexer_scan_keyword[OF K, of None "[c]" None] PulseLexer_scan_single[OF c] c
      by (simp add: get_tokens_PulseLexer)
    from PulseLexer_scan_total[of "Some (last K)" "c # rest"] obtain ts where
      "scan_from PulseLexer_root (Some (last K), c # rest) = Some ts" by blast
    then show "\<exists>ts. get_tokens_unprocessed PulseLexer (K @ c # rest) = Some ((Keyword, K) # ts)"
      using PulseLexer_scan_keyword[OF K, of None "c # rest" None] c
      by (simp add: get_tokens_PulseLexer)
  qed
  have custom_neg: "\<exists>ts. get_tokens_unprocessed CustomLexer (K @ c # rest) = Some ts \<and> ts \<noteq> [] \<and>
               hd ts \<noteq> (Keyword, K)"
    if K: "K \<in> set fstar_keywords" and c: "is_word_char c"
  proof -
    have "is_word K" using K fstar_keywords_words by (auto simp: list_all_iff)
    from first_token_not_keyword[OF _ _ CustomLexer_keyword_rule this c, where p = None and rest = rest]
    show ?thesis
      using CustomLexer_total[of None] CustomLexer_scan_total
      by (cases K) (auto simp: get_tokens_CustomLexer)
  qed
  have pulse_neg: "\<exists>ts. get_tokens_unprocessed PulseLexer (K @ c # rest) = Some ts \<and> ts \<noteq> [] \<and>
               hd ts \<noteq> (Keyword, K)"
    if K: "K \<in> set fstar_keywords \<or> K \<in> set pulse_keywords" and c: "is_word_char c"
  proof -
    have "is_word K" using K fstar_keywords_words pulse_keywords_words
      by (auto simp: list_all_iff)
    from first_token_not_keyword[OF _ _ PulseLexer_keyword_rule this c, where p = None and rest = rest]
    show ?thesis
      using PulseLexer_total[of None] PulseLexer_scan_total
      by (cases K) (auto simp: get_tokens_PulseLexer)
  qed
  have l1: "get_tokens_unprocessed CustomLexer ''letrec'' = Some [(Text, ''letrec'')]"
    by code_simp
  have l2: "get_tokens_unprocessed PulseLexer ''letrec'' = Some [(Text, ''letrec'')]"
    by code_simp
  show ?thesis
    using custom_pos custom_pos' pulse_pos pulse_pos' custom_neg pulse_neg l1 l2
    by (simp only: Un_iff) blast
qed

theorem keyword_boundary_witness:
  "''let'' \<in> set fstar_keywords \<and> \<not> is_word_char CHR '' '' \<and> is_word_char CHR ''r'' \<and>
   get_tokens_unprocessed CustomLexer ''let '' = Some [(Keyword, ''let''), (Text, '' '')] \<and>
   get_tokens_unprocessed PulseLexer ''let '' = Some [(Keyword, ''let''), (Text, '' '')] \<and>
   (\<exists>ts. get_tokens_unprocessed CustomLexer ''letrec'' = Some ts \<and> ts \<noteq> [] \<and>
         hd ts \<noteq> (Keyword, ''let'')) \<and>
   (\<exists>ts. get_tokens_unprocessed PulseLexer ''letrec'' = Some ts \<and> ts \<noteq> [] \<and>
         hd ts \<noteq> (Keyword, ''let''))"
proof -
  have h1: "''let'' \<in> set fstar_keywords" by (simp add: fstar_keywords_def)
  have h2: "\<not> is_word_char CHR '' ''" by code_simp
  have h3: "is_word_char CHR ''r''" by code_simp
  show ?thesis
    using h1 h2 h3 keyword_boundary[of "''let''" "CHR '' ''" "[]"]
      keyword_boundary[of "''let''" "CHR ''r''" "''ec''"]
    by simp
qed

text \<open>
  C8, as the claim states it, fails for the extension lexer: a word of \<open>pulse_keywords\<close>
  followed by a character that is in no identifier class, but is a \<^verbatim>\<open>\w\<close> character, is
  not a \<open>Keyword\<close> token. After \<^verbatim>\<open>fn\<close>, the fraction U+00BC and the letter U+00E9 leave no
  boundary, and \<^verbatim>\<open>fn\<close> is emitted as \<open>Text\<close>.
\<close>

theorem extension_vocabulary_counterexample:
  "''fn'' \<in> set pulse_keywords \<and>
   \<not> in_cset (CHR 0xBC) [Rng CHR ''a'' CHR ''z'', Rng CHR ''A'' CHR ''Z'', Chr CHR ''_'',
                          Rng CHR ''0'' CHR ''9''] \<and>
   get_tokens_unprocessed PulseLexer (''fn'' @ [CHR 0xBC]) =
     Some [(Text, ''fn''), (Text, [CHR 0xBC])] \<and>
   \<not> in_cset (CHR 0xE9) [Rng CHR ''a'' CHR ''z'', Rng CHR ''A'' CHR ''Z'', Chr CHR ''_'',
                          Rng CHR ''0'' CHR ''9''] \<and>
   get_tokens_unprocessed PulseLexer (''fn'' @ [CHR 0xE9]) =
     Some [(Text, ''fn''), (Text, [CHR 0xE9])]"
  by code_simp

text \<open>
  C8, amended. Every word \<open>K\<close> of \<open>pulse_keywords\<close>, at the end of the input or followed
  by a character \<open>c\<close> that is not a \<^verbatim>\<open>\w\<close> character (and then by anything), is a \<open>Text\<close>
  token for the base lexer and a \<open>Keyword\<close> token for the extension lexer; and the
  extension lexer makes every word \<open>B\<close> of \<open>fstar_keywords\<close> a \<open>Keyword\<close> token in the
  same situations.
\<close>

theorem extension_vocabulary:
  "(K \<in> set pulse_keywords \<longrightarrow>
      get_tokens_unprocessed CustomLexer K = Some [(Text, K)] \<and>
      get_tokens_unprocessed PulseLexer K = Some [(Keyword, K)] \<and>
      (\<not> is_word_char c \<longrightarrow>
         get_tokens_unprocessed CustomLexer (K @ [c]) = Some [(Text, K), (Text, [c])] \<and>
         get_tokens_unprocessed PulseLexer (K @ [c]) = Some [(Keyword, K), (Text, [c])] \<and>
         (\<exists>ts. get_tokens_unprocessed CustomLexer (K @ c # rest) = Some ((Text, K) # ts)) \<and>
         (\<exists>ts. get_tokens_unprocessed PulseLexer (K @ c # rest) = Some ((Keyword, K) # ts)))) \<and>
   (B \<in> set fstar_keywords \<longrightarrow>
      get_tokens_unprocessed PulseLexer B = Some [(Keyword, B)] \<and>
      (\<not> is_word_char c \<longrightarrow>
         get_tokens_unprocessed PulseLexer (B @ [c]) = Some [(Keyword, B), (Text, [c])] \<and>
         (\<exists>ts. get_tokens_unprocessed PulseLexer (B @ c # rest) = Some ((Keyword, B) # ts))))"
proof -
  have e1: "scan_from CustomLexer_root (q, []) = Some []" for q
    by (rule scan_from_end[OF CustomLexer_never_empty])
  have e2: "scan_from PulseLexer_root (q, []) = Some []" for q
    by (rule scan_from_end[OF PulseLexer_never_empty])
  have a: "get_tokens_unprocessed CustomLexer K = Some [(Text, K)]"
    and b: "get_tokens_unprocessed PulseLexer K = Some [(Keyword, K)]"
    if K: "K \<in> set pulse_keywords"
  proof -
    show "get_tokens_unprocessed CustomLexer K = Some [(Text, K)]"
      using CustomLexer_scan_pulse_keyword[OF K, of None "[]" None] e1
      by (simp add: get_tokens_CustomLexer)
    show "get_tokens_unprocessed PulseLexer K = Some [(Keyword, K)]"
      using PulseLexer_scan_keyword[of K None "[]" None] K e2
      by (simp add: get_tokens_PulseLexer)
  qed
  have a': "get_tokens_unprocessed CustomLexer (K @ [c]) = Some [(Text, K), (Text, [c])]"
    and b': "get_tokens_unprocessed PulseLexer (K @ [c]) = Some [(Keyword, K), (Text, [c])]"
    and a'': "\<exists>ts. get_tokens_unprocessed CustomLexer (K @ c # rest) = Some ((Text, K) # ts)"
    and b'': "\<exists>ts. get_tokens_unprocessed PulseLexer (K @ c # rest) = Some ((Keyword, K) # ts)"
    if K: "K \<in> set pulse_keywords" and c: "\<not> is_word_char c"
  proof -
    show "get_tokens_unprocessed CustomLexer (K @ [c]) = Some [(Text, K), (Text, [c])]"
      using CustomLexer_scan_pulse_keyword[OF K, of None "[c]" None] CustomLexer_scan_single[OF c] c
      by (simp add: get_tokens_CustomLexer)
    show "get_tokens_unprocessed PulseLexer (K @ [c]) = Some [(Keyword, K), (Text, [c])]"
      using PulseLexer_scan_keyword[of K None "[c]" None] PulseLexer_scan_single[OF c] K c
      by (simp add: get_tokens_PulseLexer)
    from CustomLexer_scan_total[of "Some (last K)" "c # rest"] obtain ts where
      "scan_from CustomLexer_root (Some (last K), c # rest) = Some ts" by blast
    then show "\<exists>ts. get_tokens_unprocessed CustomLexer (K @ c # rest) = Some ((Text, K) # ts)"
      using CustomLexer_scan_pulse_keyword[OF K, of None "c # rest" None] c
      by (simp add: get_tokens_CustomLexer)
    from PulseLexer_scan_total[of "Some (last K)" "c # rest"] obtain ts where
      "scan_from PulseLexer_root (Some (last K), c # rest) = Some ts" by blast
    then show "\<exists>ts. get_tokens_unprocessed PulseLexer (K @ c # rest) = Some ((Keyword, K) # ts)"
      using PulseLexer_scan_keyword[of K None "c # rest" None] K c
      by (simp add: get_tokens_PulseLexer)
  qed
  have d: "get_tokens_unprocessed PulseLexer B = Some [(Keyword, B)]"
    if B: "B \<in> set fstar_keywords"
    using PulseLexer_scan_keyword[of B None "[]" None] B e2
    by (simp add: get_tokens_PulseLexer)
  have d': "get_tokens_unprocessed PulseLexer (B @ [c]) = Some [(Keyword, B), (Text, [c])]"
    and d'': "\<exists>ts. get_tokens_unprocessed PulseLexer (B @ c # rest) = Some ((Keyword, B) # ts)"
    if B: "B \<in> set fstar_keywords" and c: "\<not> is_word_char c"
  proof -
    show "get_tokens_unprocessed PulseLexer (B @ [c]) = Some [(Keyword, B), (Text, [c])]"
      using PulseLexer_scan_keyword[of B None "[c]" None] PulseLexer_scan_single[OF c] B c
      by (simp add: get_tokens_PulseLexer)
    from PulseLexer_scan_total[of "Some (last B)" "c # rest"] obtain ts where
      "scan_from PulseLexer_root (Some (last B), c # rest) = Some ts" by blast
    then show "\<exists>ts. get_tokens_unprocessed PulseLexer (B @ c # rest) = Some ((Keyword, B) # ts)"
      using PulseLexer_scan_keyword[of B None "c # rest" None] B c
      by (simp add: get_tokens_PulseLexer)
  qed
  show ?thesis using a b a' b' a'' b'' d d' d'' by blast
qed

theorem extension_vocabulary_witness:
  "''fn'' \<in> set pulse_keywords \<and> ''let'' \<in> set fstar_keywords \<and> \<not> is_word_char CHR '' '' \<and>
   get_tokens_unprocessed CustomLexer ''fn'' = Some [(Text, ''fn'')] \<and>
   get_tokens_unprocessed PulseLexer ''fn'' = Some [(Keyword, ''fn'')] \<and>
   get_tokens_unprocessed CustomLexer ''fn '' = Some [(Text, ''fn''), (Text, '' '')] \<and>
   get_tokens_unprocessed PulseLexer ''fn '' = Some [(Keyword, ''fn''), (Text, '' '')] \<and>
   (\<exists>ts. get_tokens_unprocessed CustomLexer ''fn f'' = Some ((Text, ''fn'') # ts)) \<and>
   (\<exists>ts. get_tokens_unprocessed PulseLexer ''fn f'' = Some ((Keyword, ''fn'') # ts)) \<and>
   get_tokens_unprocessed PulseLexer ''let'' = Some [(Keyword, ''let'')] \<and>
   get_tokens_unprocessed PulseLexer ''let '' = Some [(Keyword, ''let''), (Text, '' '')] \<and>
   (\<exists>ts. get_tokens_unprocessed PulseLexer ''let f'' = Some ((Keyword, ''let'') # ts))"
proof -
  have h1: "''fn'' \<in> set pulse_keywords" by (simp add: pulse_keywords_def)
  have h2: "''let'' \<in> set fstar_keywords" by (simp add: fstar_keywords_def)
  have h3: "\<not> is_word_char CHR '' ''" by code_simp
  show ?thesis
    using h1 h2 h3
      extension_vocabulary[where K = "''fn''" and c = "CHR '' ''" and rest = "''f''"
        and B = "''let''"]
    by simp
qed

subsection \<open>Line comments\<close>

text \<open>
  C9, as the claim states it, fails: an input that starts with \<^verbatim>\<open>//\<close> and has no newline is
  not always emitted as \<open>Text\<close> tokens only, and may contain a \<open>Comment\<close> token. After the
  two slashes the rule chain goes on as usual: \<^verbatim>\<open>// let\<close> ends in a \<open>Keyword\<close> token, and
  \<^verbatim>\<open>//(**)\<close> in a \<open>Comment\<close> token.
\<close>

theorem line_comment_examples_counterexample:
  "newline \<notin> set ''// let'' \<and>
   get_tokens_unprocessed CustomLexer ''// let'' =
     Some [(Text, ''/''), (Text, ''/''), (Text, '' ''), (Keyword, ''let'')] \<and>
   get_tokens_unprocessed PulseLexer ''// let'' =
     Some [(Text, ''/''), (Text, ''/''), (Text, '' ''), (Keyword, ''let'')] \<and>
   newline \<notin> set ''//(**)'' \<and>
   get_tokens_unprocessed CustomLexer ''//(**)'' =
     Some [(Text, ''/''), (Text, ''/''), (Comment, ''(**)'')] \<and>
   get_tokens_unprocessed PulseLexer ''//(**)'' =
     Some [(Text, ''/''), (Text, ''/''), (Comment, ''(**)'')]"
  by code_simp

text \<open>
  C9, amended. For an input \<^verbatim>\<open>//\<close>\<open>rest\<close> where \<open>rest\<close> has no newline, the line-comment
  rule does not match, and each of the two slashes is a \<open>Text\<close> token of one character;
  the tokens of \<open>rest\<close> follow, among which there is no \<open>Comment\<close> token unless \<open>rest\<close>
  contains the close delimiter of a block comment. The input \<^verbatim>\<open>// hello\<close> is the four
  \<open>Text\<close> tokens \<^verbatim>\<open>/\<close>, \<^verbatim>\<open>/\<close>, a space and \<^verbatim>\<open>hello\<close>. Conversely, for an input
  \<^verbatim>\<open>//\<close>\<open>body\<close> newline \<open>after\<close> where \<open>body\<close> has no newline, the first token is the
  \<open>Comment\<close> token \<^verbatim>\<open>//\<close>\<open>body\<close> newline, the newline included; \<^verbatim>\<open>// hello\<close> newline
  \<^verbatim>\<open>let\<close> is that comment and then the keyword \<^verbatim>\<open>let\<close>.
\<close>

theorem line_comment_termination:
  "(newline \<notin> set rest \<longrightarrow>
      rx_match rx_line_comment (p, ''//'' @ rest) = None \<and>
      (\<exists>ts. get_tokens_unprocessed CustomLexer (''//'' @ rest) =
               Some ((Text, ''/'') # (Text, ''/'') # ts) \<and>
            (\<not> contains_close rest \<longrightarrow> (\<forall>x\<in>set ts. fst x \<noteq> Comment))) \<and>
      (\<exists>ts. get_tokens_unprocessed PulseLexer (''//'' @ rest) =
               Some ((Text, ''/'') # (Text, ''/'') # ts) \<and>
            (\<not> contains_close rest \<longrightarrow> (\<forall>x\<in>set ts. fst x \<noteq> Comment)))) \<and>
   (newline \<notin> set body \<longrightarrow>
      (\<exists>ts. get_tokens_unprocessed CustomLexer (''//'' @ body @ newline # after) =
               Some ((Comment, ''//'' @ body @ [newline]) # ts)) \<and>
      (\<exists>ts. get_tokens_unprocessed PulseLexer (''//'' @ body @ newline # after) =
               Some ((Comment, ''//'' @ body @ [newline]) # ts))) \<and>
   get_tokens_unprocessed CustomLexer ''// hello'' =
     Some [(Text, ''/''), (Text, ''/''), (Text, '' ''), (Text, ''hello'')] \<and>
   get_tokens_unprocessed PulseLexer ''// hello'' =
     Some [(Text, ''/''), (Text, ''/''), (Text, '' ''), (Text, ''hello'')] \<and>
   get_tokens_unprocessed CustomLexer (''// hello'' @ newline # ''let'') =
     Some [(Comment, ''// hello'' @ [newline]), (Keyword, ''let'')] \<and>
   get_tokens_unprocessed PulseLexer (''// hello'' @ newline # ''let'') =
     Some [(Comment, ''// hello'' @ [newline]), (Keyword, ''let'')]"
proof -
  have un: "rx_match rx_line_comment (p, ''//'' @ rest) = None" if "newline \<notin> set rest"
    using that by (intro line_comment_unterminated) (simp add: newline_def)
  have c1: "\<exists>ts. get_tokens_unprocessed CustomLexer (''//'' @ rest) =
               Some ((Text, ''/'') # (Text, ''/'') # ts) \<and>
            (\<not> contains_close rest \<longrightarrow> (\<forall>x\<in>set ts. fst x \<noteq> Comment))"
    if n: "newline \<notin> set rest"
  proof (cases "contains_close rest")
    case True
    from CustomLexer_scan_total[of "Some CHR ''/''" rest] show ?thesis
      using CustomLexer_two_slashes[OF n, of None] True
      by (auto simp: get_tokens_CustomLexer)
  next
    case False
    from CustomLexer_no_comment[OF n False, of "Some CHR ''/''"] show ?thesis
      using CustomLexer_two_slashes[OF n, of None]
      by (auto simp: get_tokens_CustomLexer)
  qed
  have p1: "\<exists>ts. get_tokens_unprocessed PulseLexer (''//'' @ rest) =
               Some ((Text, ''/'') # (Text, ''/'') # ts) \<and>
            (\<not> contains_close rest \<longrightarrow> (\<forall>x\<in>set ts. fst x \<noteq> Comment))"
    if n: "newline \<notin> set rest"
  proof (cases "contains_close rest")
    case True
    from PulseLexer_scan_total[of "Some CHR ''/''" rest] show ?thesis
      using PulseLexer_two_slashes[OF n, of None] True
      by (auto simp: get_tokens_PulseLexer)
  next
    case False
    from PulseLexer_no_comment[OF n False, of "Some CHR ''/''"] show ?thesis
      using PulseLexer_two_slashes[OF n, of None]
      by (auto simp: get_tokens_PulseLexer)
  qed
  have mt: "matched_text (None, CHR ''/'' # CHR ''/'' # body @ newline # after) (Some newline, after) =
      CHR ''/'' # CHR ''/'' # body @ [newline]"
    using matched_text_append[of None "CHR ''/'' # CHR ''/'' # body @ [newline]" after "Some newline"]
    by simp
  have c2: "\<exists>ts. get_tokens_unprocessed CustomLexer (''//'' @ body @ newline # after) =
               Some ((Comment, ''//'' @ body @ [newline]) # ts)"
    if n: "newline \<notin> set body"
    using scan_from_step[OF CustomLexer_line_comment[OF n, of None after]]
      CustomLexer_scan_total[of "Some newline" after] mt
    by (auto simp: get_tokens_CustomLexer)
  have p2: "\<exists>ts. get_tokens_unprocessed PulseLexer (''//'' @ body @ newline # after) =
               Some ((Comment, ''//'' @ body @ [newline]) # ts)"
    if n: "newline \<notin> set body"
    using scan_from_step[OF PulseLexer_line_comment[OF n, of None after]]
      PulseLexer_scan_total[of "Some newline" after] mt
    by (auto simp: get_tokens_PulseLexer)
  have e1: "get_tokens_unprocessed CustomLexer ''// hello'' =
     Some [(Text, ''/''), (Text, ''/''), (Text, '' ''), (Text, ''hello'')]"
    by code_simp
  have e2: "get_tokens_unprocessed PulseLexer ''// hello'' =
     Some [(Text, ''/''), (Text, ''/''), (Text, '' ''), (Text, ''hello'')]"
    by code_simp
  have e3: "get_tokens_unprocessed CustomLexer (''// hello'' @ newline # ''let'') =
     Some [(Comment, ''// hello'' @ [newline]), (Keyword, ''let'')]"
    by code_simp
  have e4: "get_tokens_unprocessed PulseLexer (''// hello'' @ newline # ''let'') =
     Some [(Comment, ''// hello'' @ [newline]), (Keyword, ''let'')]"
    by code_simp
  show ?thesis
    using un c1 p1 c2 p2 e1 e2 e3 e4 by blast
qed

theorem line_comment_termination_witness:
  "newline \<notin> set '' hello'' \<and> \<not> contains_close '' hello'' \<and>
   rx_match rx_line_comment (None, ''// hello'') = None \<and>
   get_tokens_unprocessed CustomLexer ''// hello'' =
     Some [(Text, ''/''), (Text, ''/''), (Text, '' ''), (Text, ''hello'')] \<and>
   (\<exists>ts. get_tokens_unprocessed CustomLexer (''// hello'' @ newline # ''let'') =
           Some ((Comment, ''// hello'' @ [newline]) # ts))"
proof -
  have h1: "newline \<notin> set '' hello''" by (simp add: newline_def)
  have h2: "\<not> contains_close '' hello''" by simp
  show ?thesis
    using h1 h2 line_comment_termination[of "'' hello''" None "'' hello''" "''let''"]
    by simp
qed

subsection \<open>Block comments\<close>

text \<open>
  C10, as the claim states it, fails: after an open delimiter that no close delimiter
  follows, the following characters are not always emitted as \<open>Text\<close>. The rule chain
  goes on as usual after the two characters of the delimiter: \<^verbatim>\<open>(* let\<close> ends in a
  \<open>Keyword\<close> token, and in \<^verbatim>\<open>(*//x\<close> newline a \<open>Comment\<close> token covers the line comment.
\<close>

theorem unterminated_block_counterexample:
  "\<not> contains_close '' let'' \<and>
   get_tokens_unprocessed CustomLexer ''(* let'' =
     Some [(Text, ''(''), (Text, ''*''), (Text, '' ''), (Keyword, ''let'')] \<and>
   get_tokens_unprocessed PulseLexer ''(* let'' =
     Some [(Text, ''(''), (Text, ''*''), (Text, '' ''), (Keyword, ''let'')] \<and>
   \<not> contains_close (''//x'' @ [newline]) \<and>
   get_tokens_unprocessed CustomLexer (''(*//x'' @ [newline]) =
     Some [(Text, ''(''), (Text, ''*''), (Comment, ''//x'' @ [newline])] \<and>
   get_tokens_unprocessed PulseLexer (''(*//x'' @ [newline]) =
     Some [(Text, ''(''), (Text, ''*''), (Comment, ''//x'' @ [newline])]"
  by code_simp

text \<open>
  C10, amended. At any scan position where the text is \<^verbatim>\<open>(*\<close>\<open>t\<close> and \<open>t\<close> does not contain
  \<^verbatim>\<open>*)\<close>, the block-comment rule does not match; the rule chain there yields \<^verbatim>\<open>(\<close> as a
  \<open>Text\<close> token of one character and, at the next position, \<^verbatim>\<open>*\<close> as a \<open>Text\<close> token of one
  character. So an input \<^verbatim>\<open>(*\<close>\<open>t\<close> is these two tokens and then the tokens of \<open>t\<close>, among
  which there is no \<open>Comment\<close> token unless \<open>t\<close> contains a newline.
\<close>

theorem unterminated_block_comment:
  "\<not> contains_close t \<longrightarrow>
     rx_match rx_block_comment (p, ''(*'' @ t) = None \<and>
     first_match CustomLexer_root (p, ''(*'' @ t) = Some (Text, (Some CHR ''('', CHR ''*'' # t)) \<and>
     first_match CustomLexer_root (Some CHR ''('', CHR ''*'' # t) = Some (Text, (Some CHR ''*'', t)) \<and>
     first_match PulseLexer_root (p, ''(*'' @ t) = Some (Text, (Some CHR ''('', CHR ''*'' # t)) \<and>
     first_match PulseLexer_root (Some CHR ''('', CHR ''*'' # t) = Some (Text, (Some CHR ''*'', t)) \<and>
     (\<exists>ts. get_tokens_unprocessed CustomLexer (''(*'' @ t) =
              Some ((Text, ''('') # (Text, ''*'') # ts) \<and>
           (newline \<notin> set t \<longrightarrow> (\<forall>x\<in>set ts. fst x \<noteq> Comment))) \<and>
     (\<exists>ts. get_tokens_unprocessed PulseLexer (''(*'' @ t) =
              Some ((Text, ''('') # (Text, ''*'') # ts) \<and>
           (newline \<notin> set t \<longrightarrow> (\<forall>x\<in>set ts. fst x \<noteq> Comment)))"
proof
  assume t: "\<not> contains_close t"
  have un: "rx_match rx_block_comment (p, ''(*'' @ t) = None"
    using block_comment_unterminated[OF t, of p] by simp
  note c = CustomLexer_open_unterminated[OF t]
  note q = PulseLexer_open_unterminated[OF t]
  have cs: "scan_from CustomLexer_root (None, ''(*'' @ t) =
      map_option (\<lambda>ts. (Text, ''('') # (Text, ''*'') # ts)
        (scan_from CustomLexer_root (Some CHR ''*'', t))"
    using scan_from_step[OF c(1)[of None]] scan_from_step[OF c(2)[of "Some CHR ''(''"]]
    by (simp add: matched_text_def option.map_comp comp_def)
  have ps: "scan_from PulseLexer_root (None, ''(*'' @ t) =
      map_option (\<lambda>ts. (Text, ''('') # (Text, ''*'') # ts)
        (scan_from PulseLexer_root (Some CHR ''*'', t))"
    using scan_from_step[OF q(1)[of None]] scan_from_step[OF q(2)[of "Some CHR ''(''"]]
    by (simp add: matched_text_def option.map_comp comp_def)
  have c1: "\<exists>ts. get_tokens_unprocessed CustomLexer (''(*'' @ t) =
              Some ((Text, ''('') # (Text, ''*'') # ts) \<and>
           (newline \<notin> set t \<longrightarrow> (\<forall>x\<in>set ts. fst x \<noteq> Comment))"
  proof (cases "newline \<in> set t")
    case True
    from CustomLexer_scan_total[of "Some CHR ''*''" t] show ?thesis
      using cs True by (auto simp: get_tokens_CustomLexer)
  next
    case False
    from CustomLexer_no_comment[OF False t, of "Some CHR ''*''"] show ?thesis
      using cs by (auto simp: get_tokens_CustomLexer)
  qed
  have p1: "\<exists>ts. get_tokens_unprocessed PulseLexer (''(*'' @ t) =
              Some ((Text, ''('') # (Text, ''*'') # ts) \<and>
           (newline \<notin> set t \<longrightarrow> (\<forall>x\<in>set ts. fst x \<noteq> Comment))"
  proof (cases "newline \<in> set t")
    case True
    from PulseLexer_scan_total[of "Some CHR ''*''" t] show ?thesis
      using ps True by (auto simp: get_tokens_PulseLexer)
  next
    case False
    from PulseLexer_no_comment[OF False t, of "Some CHR ''*''"] show ?thesis
      using ps by (auto simp: get_tokens_PulseLexer)
  qed
  show "rx_match rx_block_comment (p, ''(*'' @ t) = None \<and>
     first_match CustomLexer_root (p, ''(*'' @ t) = Some (Text, (Some CHR ''('', CHR ''*'' # t)) \<and>
     first_match CustomLexer_root (Some CHR ''('', CHR ''*'' # t) = Some (Text, (Some CHR ''*'', t)) \<and>
     first_match PulseLexer_root (p, ''(*'' @ t) = Some (Text, (Some CHR ''('', CHR ''*'' # t)) \<and>
     first_match PulseLexer_root (Some CHR ''('', CHR ''*'' # t) = Some (Text, (Some CHR ''*'', t)) \<and>
     (\<exists>ts. get_tokens_unprocessed CustomLexer (''(*'' @ t) =
              Some ((Text, ''('') # (Text, ''*'') # ts) \<and>
           (newline \<notin> set t \<longrightarrow> (\<forall>x\<in>set ts. fst x \<noteq> Comment))) \<and>
     (\<exists>ts. get_tokens_unprocessed PulseLexer (''(*'' @ t) =
              Some ((Text, ''('') # (Text, ''*'') # ts) \<and>
           (newline \<notin> set t \<longrightarrow> (\<forall>x\<in>set ts. fst x \<noteq> Comment)))"
    using un c(1)[of p] c(2)[of "Some CHR ''(''"] q(1)[of p] q(2)[of "Some CHR ''(''"] c1 p1
    by simp
qed

theorem unterminated_block_comment_witness:
  "\<not> contains_close '' x *'' \<and> newline \<notin> set '' x *'' \<and>
   rx_match rx_block_comment (None, ''(* x *'') = None \<and>
   first_match CustomLexer_root (None, ''(* x *'') = Some (Text, (Some CHR ''('', ''* x *'')) \<and>
   first_match PulseLexer_root (None, ''(* x *'') = Some (Text, (Some CHR ''('', ''* x *'')) \<and>
   (\<exists>ts. get_tokens_unprocessed CustomLexer ''(* x *'' = Some ((Text, ''('') # (Text, ''*'') # ts))"
proof -
  have h1: "\<not> contains_close '' x *''" by simp
  have h2: "newline \<notin> set '' x *''" by (simp add: newline_def)
  show ?thesis
    using h1 h2 unterminated_block_comment[of "'' x *''" None]
    by auto
qed

text \<open>
  C6. The claim is that a block comment ends at the first close delimiter after its open
  delimiter. The pattern \<^verbatim>\<open>\([*]([^*]|[*]+[^)])*[*]+\)\<close> does that when one star precedes the
  closing parenthesis, as in the last input below, where the nested open delimiter does not
  extend the comment. When two or more stars precede it, the class \<^verbatim>\<open>[^)]\<close> accepts the last
  of them, the parenthesis is then taken by \<^verbatim>\<open>[^*]\<close>, and the match runs on to a later close
  delimiter: on the first four inputs below the whole text is one \<open>Comment\<close> token, where
  the claim gives the comments \<^verbatim>\<open>(***)\<close> and \<^verbatim>\<open>(** a **)\<close>.
\<close>

theorem block_comment_overrun:
  "get_tokens_unprocessed CustomLexer ''(***) x *)'' = Some [(Comment, ''(***) x *)'')] \<and>
   get_tokens_unprocessed PulseLexer ''(***) x *)'' = Some [(Comment, ''(***) x *)'')] \<and>
   get_tokens_unprocessed CustomLexer ''(** a **) let x (* b *)'' =
     Some [(Comment, ''(** a **) let x (* b *)'')] \<and>
   get_tokens_unprocessed PulseLexer ''(** a **) let x (* b *)'' =
     Some [(Comment, ''(** a **) let x (* b *)'')] \<and>
   get_tokens_unprocessed CustomLexer ''(* a (* b *) c *)'' =
     Some [(Comment, ''(* a (* b *)''), (Text, '' ''), (Text, ''c''), (Text, '' ''),
           (Text, ''*''), (Text, '')'')]"
  by code_simp

subsection \<open>Digits in identifiers\<close>

text \<open>
  C7. The input \<^verbatim>\<open>x1\<close> standing alone is one \<open>Text\<close> token \<^verbatim>\<open>x1\<close> for the base lexer, whose
  identifier rule \<^verbatim>\<open>[a-zA-Z_0-9]+\<close> accepts digits, and two \<open>Text\<close> tokens \<^verbatim>\<open>x\<close> and \<^verbatim>\<open>1\<close>
  for the extension lexer, whose identifier rule \<^verbatim>\<open>[a-zA-Z_]+\<close> leaves the digit to the
  catch-all rule.
\<close>

theorem digit_asymmetry:
  "get_tokens_unprocessed CustomLexer ''x1'' = Some [(Text, ''x1'')] \<and>
   get_tokens_unprocessed PulseLexer ''x1'' = Some [(Text, ''x''), (Text, ''1'')]"
  by code_simp

end
